theory Spec2Isabelle
  imports
    Main
    "HOL-Library.Sublist"
    "HOL-Library.Char_ord"
    "HOL-Library.List_Lexorder"
    "HOL-Library.Multiset"
    "HOL-Library.AList"
begin

section \<open>Data model (core\_types.go)\<close>

text \<open>
  Go strings are byte sequences; \<^typ>\<open>string\<close> is a list of 8-bit characters, and the
  order on it (bytewise lexicographic, from \<open>Char_ord\<close> and \<open>List_Lexorder\<close>) is Go's
  \<open><\<close> on strings.
\<close>

datatype MediaType = TypePhoto | TypeVideo | TypeMusic | TypeUnknown

text \<open>
  A \<open>time.Time\<close> is an instant: whole seconds since the Unix epoch and the nanoseconds
  within the second. \<open>t.Unix()\<close> is the first component, \<open>time.Unix(s, 0)\<close> is
  \<open>Time s 0\<close>.
\<close>

datatype time = Time (Unix: int) (Nanosecond: int)

definition Before :: "time \<Rightarrow> time \<Rightarrow> bool" where
  "Before t u \<longleftrightarrow> Unix t < Unix u \<or> (Unix t = Unix u \<and> Nanosecond t < Nanosecond u)"

text \<open>
  \<open>MediaFile\<close>. The field \<open>IsNew\<close> is assigned by \<open>ProcessMetadata\<close> and read by
  \<open>filterAlbumsWithNewFiles\<close>. \<open>Size\<close> is an \<open>int64\<close>, \<open>Width\<close> and \<open>Height\<close> are
  \<open>int\<close>; a nil \<open>DateTaken\<close> is \<open>None\<close>.
\<close>

record MediaFile =
  Path :: string
  Size :: int
  Hash :: string
  Type :: MediaType
  DateTaken :: "time option"
  CameraMake :: string
  CameraModel :: string
  Artist :: string
  Album :: string
  Title :: string
  Width :: int
  Height :: int
  IsNew :: bool

record DuplicateGroup =
  Group_Hash :: string
  Group_Files :: "MediaFile list"
  Best :: MediaFile

text \<open>The zero value \<open>MediaFile{}\<close>, from which composite literals fill their fields.\<close>

definition zero_MediaFile :: MediaFile where
  "zero_MediaFile =
    \<lparr>Path = '''', Size = 0, Hash = '''', Type = TypePhoto, DateTaken = None,
     CameraMake = '''', CameraModel = '''', Artist = '''', Album = '''', Title = '''',
     Width = 0, Height = 0, IsNew = False\<rparr>"

record Album =
  Name :: string
  Destination :: string
  Files :: "MediaFile list"
  SourceDirs :: "string list"
  Date :: "time option"
  Album_Type :: MediaType

record Config =
  ScanPath :: string
  LibraryBase :: string
  DuplicatesTrash :: string
  OllamaModel :: string
  DryRun :: bool
  FileLimit :: int
  Workers :: int
  PruneCache :: bool

text \<open>A run-time panic of the Go program.\<close>

datatype go_panic = IndexOutOfRange

section \<open>Strings\<close>

text \<open>\<open>strings.Contains(s, substr)\<close>: \<open>substr\<close> occurs in \<open>s\<close> as a contiguous block.\<close>

definition Contains :: "string \<Rightarrow> string \<Rightarrow> bool" where
  "Contains s substr = sublist substr s"

section \<open>Duplicate resolution (core\_dedup.go)\<close>

text \<open>
  Go's \<open>/\<close> on integers truncates towards zero.
\<close>

definition go_quot :: "int \<Rightarrow> int \<Rightarrow> int" where
  "go_quot a b = sgn a * sgn b * (\<bar>a\<bar> div \<bar>b\<bar>)"

definition int64_range :: "int \<Rightarrow> bool" where
  "int64_range n \<longleftrightarrow> - (2 ^ 63) \<le> n \<and> n < 2 ^ 63"

definition organized_patterns :: "string list" where
  "organized_patterns = [''/Photo/'', ''/Pictures/'', ''/Video/'', ''/Music/'']"

text \<open>
  The body of the scoring loop of \<open>chooseBestDuplicate\<close>, one step per statement.
  The score is a Go \<open>int\<close> (64 bits); \<open>dup_score_int64\<close> below shows that the sum never
  leaves that range for an \<open>int64\<close> size, so no wrap-around is written out.
\<close>

definition dup_score :: "MediaFile \<Rightarrow> int" where
  "dup_score mf =
    (let score = 0;
         score = score + go_quot (Size mf) 1024;
         score = (if \<not> Contains (Path mf) ''/Recovered/'' then score + 1000000 else score);
         score = (if list_ex (\<lambda>pattern. Contains (Path mf) pattern) organized_patterns
                  then score + 500000 else score);
         score = (if Contains (Path mf) ''/UNNAMED_'' then score - 500000 else score);
         score = (if CameraMake mf \<noteq> '''' then score + 10000 else score);
         score = (if Album mf \<noteq> '''' then score + 10000 else score)
     in score)"

text \<open>The \<open>less\<close> function handed to \<open>sort.Slice\<close>.\<close>

definition dup_less :: "MediaFile \<Rightarrow> MediaFile \<Rightarrow> bool" where
  "dup_less a b =
    (let si = dup_score a; sj = dup_score b
     in if si \<noteq> sj then si > sj else Path a < Path b)"

text \<open>
  \<open>sort.Slice\<close> belongs to the Go library. Its contract: the slice is permuted so that no
  element is \<open>less\<close> than one before it; the sort is not stable. The model realises the
  contract by insertion; \<open>sort_contract_head\<close> below shows that, for the inputs of
  \<open>chooseBestDuplicate\<close> with pairwise distinct paths, every result allowed by the
  contract has the same first element.
\<close>

definition sort_contract :: "('a \<Rightarrow> 'a \<Rightarrow> bool) \<Rightarrow> 'a list \<Rightarrow> 'a list \<Rightarrow> bool" where
  "sort_contract lt xs ys \<longleftrightarrow> mset ys = mset xs \<and> sorted_wrt (\<lambda>a b. \<not> lt b a) ys"

fun insert_by :: "('a \<Rightarrow> 'a \<Rightarrow> bool) \<Rightarrow> 'a \<Rightarrow> 'a list \<Rightarrow> 'a list" where
  "insert_by lt x [] = [x]"
| "insert_by lt x (y # ys) = (if lt x y then x # y # ys else y # insert_by lt x ys)"

definition sort_Slice :: "('a \<Rightarrow> 'a \<Rightarrow> bool) \<Rightarrow> 'a list \<Rightarrow> 'a list" where
  "sort_Slice lt xs = foldr (insert_by lt) xs []"

text \<open>
  \<open>chooseBestDuplicate\<close>: sorts \<open>files\<close> in place and returns \<open>files[0]\<close>, which panics
  on an empty slice.
\<close>

definition chooseBestDuplicate :: "MediaFile list \<Rightarrow> go_panic + MediaFile" where
  "chooseBestDuplicate files =
    (case sort_Slice dup_less files of
       [] \<Rightarrow> Inl IndexOutOfRange
     | best # _ \<Rightarrow> Inr best)"

text \<open>
  \<open>FindDuplicates\<close>. \<open>byHash\<close> maps a digest to the files that carry it, in input order;
  files with an empty digest are skipped. Go ranges over the map in an unspecified order:
  the order \<open>hashes\<close> in which the keys come up is a parameter. As \<open>chooseBestDuplicate\<close>
  sorts the group's backing array, \<open>Files\<close> of a group is the sorted group.
\<close>

definition byHash :: "MediaFile list \<Rightarrow> string \<Rightarrow> MediaFile list" where
  "byHash files h = filter (\<lambda>mf. Hash mf \<noteq> '''' \<and> Hash mf = h) files"

definition byHash_keys :: "MediaFile list \<Rightarrow> string list" where
  "byHash_keys files = remdups (map Hash (filter (\<lambda>mf. Hash mf \<noteq> '''') files))"

definition range_order :: "'k list \<Rightarrow> 'k list \<Rightarrow> bool" where
  "range_order keys order \<longleftrightarrow> distinct order \<and> set order = set keys"

fun FindDuplicates_loop ::
  "MediaFile list \<Rightarrow> string list \<Rightarrow> DuplicateGroup list \<Rightarrow> go_panic + DuplicateGroup list" where
  "FindDuplicates_loop files [] duplicates = Inr duplicates"
| "FindDuplicates_loop files (hash # hashes) duplicates =
    (let group = byHash files hash
     in if length group > 1
        then (case chooseBestDuplicate group of
                Inl e \<Rightarrow> Inl e
              | Inr best \<Rightarrow>
                  FindDuplicates_loop files hashes
                    (duplicates @ [\<lparr>Group_Hash = hash,
                                    Group_Files = sort_Slice dup_less group,
                                    Best = best\<rparr>]))
        else FindDuplicates_loop files hashes duplicates)"

definition FindDuplicates :: "string list \<Rightarrow> MediaFile list \<Rightarrow> go_panic + DuplicateGroup list" where
  "FindDuplicates hashes files = FindDuplicates_loop files hashes []"

text \<open>
  The priority order in the words of the specification: a structured key compared
  lexicographically (size in kilobytes, then not under \<open>/Recovered/\<close>, then under an organized-media
  marker, then not under \<open>/UNNAMED_\<close>, then camera or album metadata present), ties broken
  by the smaller path.
\<close>

definition spec_key :: "MediaFile \<Rightarrow> int \<times> bool \<times> bool \<times> bool \<times> bool" where
  "spec_key mf =
    (go_quot (Size mf) 1024,
     \<not> Contains (Path mf) ''/Recovered/'',
     list_ex (\<lambda>pattern. Contains (Path mf) pattern) organized_patterns,
     \<not> Contains (Path mf) ''/UNNAMED_'',
     CameraMake mf \<noteq> '''' \<or> Album mf \<noteq> '''')"

definition spec_better :: "MediaFile \<Rightarrow> MediaFile \<Rightarrow> bool" where
  "spec_better a b \<longleftrightarrow>
     (case (spec_key a, spec_key b) of
        ((s1, r1, o1, u1, m1), (s2, r2, o2, u2, m2)) \<Rightarrow>
          s1 > s2 \<or> (s1 = s2 \<and>
           (r1 > r2 \<or> (r1 = r2 \<and>
             (o1 > o2 \<or> (o1 = o2 \<and>
               (u1 > u2 \<or> (u1 = u2 \<and>
                 (m1 > m2 \<or> (m1 = m2 \<and> Path a < Path b))))))))))"

definition spec_best :: "MediaFile list \<Rightarrow> MediaFile \<Rightarrow> bool" where
  "spec_best files b \<longleftrightarrow> b \<in> set files \<and> list_all (\<lambda>f. f = b \<or> spec_better b f) files"

text \<open>What the code maximises: the summed score, ties broken by the smaller path.\<close>

definition score_best :: "MediaFile list \<Rightarrow> MediaFile \<Rightarrow> bool" where
  "score_best files b \<longleftrightarrow> b \<in> set files \<and> list_all (\<lambda>f. f = b \<or> dup_less b f) files"

section \<open>Metadata cache (Cache in core\_organizer.go)\<close>

text \<open>
  A row of the table \<open>files\<close>, without its key \<open>path\<close>. The only statement that
  inserts rows binds Go strings and integers, so the text and integer columns are never
  NULL; \<open>date_taken\<close> is bound from a \<open>sql.NullInt64\<close>. The table is an association
  list keyed by path (the primary key). Statements are taken to succeed, except in
  \<open>PruneDeleted\<close>, where faults are injected to model its transaction.
\<close>

record row =
  row_size :: int
  row_mod_time :: int
  row_hash :: string
  row_date_taken :: "int option"
  row_camera_make :: string
  row_camera_model :: string
  row_artist :: string
  row_album :: string
  row_title :: string
  row_width :: int
  row_height :: int
  row_processed_at :: int

record CachedFile =
  cf_Path :: string
  cf_Size :: int
  cf_ModTime :: int
  cf_Hash :: string
  cf_DateTaken :: "time option"
  cf_CameraMake :: string
  cf_CameraModel :: string
  cf_Artist :: string
  cf_Album :: string
  cf_Title :: string
  cf_Width :: int
  cf_Height :: int
  cf_ProcessedAt :: int

text \<open>
  The write queue carries pointers \<open>*MediaFile\<close>: a request is a reference and a
  modification time, and the writer reads the record through the heap when it takes the
  request. \<open>writeChan\<close> is the buffer of the channel, of capacity 1000.
\<close>

type_synonym ref = nat
type_synonym heap = "ref \<Rightarrow> MediaFile"

record Cache =
  db :: "(string \<times> row) list"
  writeChan :: "(ref \<times> time) list"

definition Get :: "Cache \<Rightarrow> string \<Rightarrow> int \<Rightarrow> time \<Rightarrow> CachedFile option" where
  "Get c path sz modTime =
    (case map_of (db c) path of
       None \<Rightarrow> None
     | Some r \<Rightarrow>
         if row_size r = sz \<and> row_mod_time r = Unix modTime
         then Some \<lparr>cf_Path = path, cf_Size = row_size r, cf_ModTime = row_mod_time r,
                    cf_Hash = row_hash r,
                    cf_DateTaken = (case row_date_taken r of
                                      None \<Rightarrow> None
                                    | Some dateTakenUnix \<Rightarrow> Some (Time dateTakenUnix 0)),
                    cf_CameraMake = row_camera_make r, cf_CameraModel = row_camera_model r,
                    cf_Artist = row_artist r, cf_Album = row_album r, cf_Title = row_title r,
                    cf_Width = row_width r, cf_Height = row_height r,
                    cf_ProcessedAt = row_processed_at r\<rparr>
         else None)"

text \<open>\<open>Put\<close>: a non-blocking send; \<open>Some\<close> is the error of a full queue.\<close>

definition Put :: "Cache \<Rightarrow> ref \<Rightarrow> time \<Rightarrow> Cache \<times> string option" where
  "Put c mf modTime =
    (if length (writeChan c) < 1000
     then (c\<lparr>writeChan := writeChan c @ [(mf, modTime)]\<rparr>, None)
     else (c, Some ''cache write queue full''))"

text \<open>\<open>writeToDatabase\<close>: \<open>INSERT OR REPLACE\<close>; \<open>now\<close> is \<open>time.Now().Unix()\<close>.\<close>

definition writeToDatabase :: "Cache \<Rightarrow> MediaFile \<Rightarrow> time \<Rightarrow> int \<Rightarrow> Cache" where
  "writeToDatabase c mf modTime now =
    (let dateTakenUnix = (case DateTaken mf of None \<Rightarrow> None | Some t \<Rightarrow> Some (Unix t))
     in c\<lparr>db := AList.update (Path mf)
                   \<lparr>row_size = Size mf, row_mod_time = Unix modTime, row_hash = Hash mf,
                    row_date_taken = dateTakenUnix,
                    row_camera_make = CameraMake mf, row_camera_model = CameraModel mf,
                    row_artist = Artist mf, row_album = Album mf, row_title = Title mf,
                    row_width = Width mf, row_height = Height mf,
                    row_processed_at = now\<rparr>
                   (db c)\<rparr>)"

text \<open>
  \<open>writerLoop\<close>, the single writer goroutine: it takes the requests in queue order and
  writes each, until the queue is empty. \<open>clock n\<close> is the wall clock at the \<open>n\<close>-th
  write; the heap does not change while the queue is drained.
\<close>

fun writer_drain :: "heap \<Rightarrow> (nat \<Rightarrow> int) \<Rightarrow> nat \<Rightarrow> (ref \<times> time) list \<Rightarrow> Cache \<Rightarrow> Cache" where
  "writer_drain h clock n [] c = c"
| "writer_drain h clock n ((mf, modTime) # reqs) c =
     writer_drain h clock (Suc n) reqs (writeToDatabase c (h mf) modTime (clock n))"

definition writerLoop :: "heap \<Rightarrow> (nat \<Rightarrow> int) \<Rightarrow> Cache \<Rightarrow> Cache" where
  "writerLoop h clock c = writer_drain h clock 0 (writeChan c) (c\<lparr>writeChan := []\<rparr>)"

text \<open>
  \<open>UpdatePath\<close>: executes the \<open>DELETE\<close> on the database handle itself, then queues the
  write for the new path.
\<close>

definition UpdatePath :: "Cache \<Rightarrow> string \<Rightarrow> ref \<Rightarrow> time \<Rightarrow> Cache" where
  "UpdatePath c oldPath mf modTime =
    fst (Put (c\<lparr>db := AList.delete oldPath (db c)\<rparr>) mf modTime)"

text \<open>
  \<open>PruneDeleted\<close>. The statements it issues are the query, \<open>Begin\<close>, \<open>Prepare\<close>, one
  \<open>Exec\<close> per path and \<open>Commit\<close>; \<open>fault\<close> names the one that fails, if any. Every
  error return runs the deferred \<open>Rollback\<close>, which leaves the table as it was.
  \<open>validPaths\<close> is a \<open>map[string]bool\<close> read by \<open>validPaths[path]\<close>: the model takes
  the set of paths it sends to \<open>true\<close> (its callers store no other value).
\<close>

datatype db_fault = FailQuery | FailBegin | FailPrepare | FailExec nat | FailCommit

datatype db_error = ErrQuery | ErrBegin | ErrPrepare | ErrExec | ErrCommit

fun tx_delete_all ::
  "db_fault option \<Rightarrow> nat \<Rightarrow> string list \<Rightarrow> (string \<times> row) list \<Rightarrow> (string \<times> row) list option" where
  "tx_delete_all fault i [] tbl = Some tbl"
| "tx_delete_all fault i (path # paths) tbl =
    (if fault = Some (FailExec i) then None
     else tx_delete_all fault (Suc i) paths (AList.delete path tbl))"

definition PruneDeleted :: "db_fault option \<Rightarrow> Cache \<Rightarrow> string set \<Rightarrow> Cache \<times> (db_error + int)" where
  "PruneDeleted fault c validPaths =
    (if fault = Some FailQuery then (c, Inl ErrQuery)
     else
       let toDelete = filter (\<lambda>path. path \<notin> validPaths) (map fst (db c))
       in if length toDelete = 0 then (c, Inr 0)
          else if fault = Some FailBegin then (c, Inl ErrBegin)
          else if fault = Some FailPrepare then (c, Inl ErrPrepare)
          else (case tx_delete_all fault 0 toDelete (db c) of
                  None \<Rightarrow> (c, Inl ErrExec)
                | Some tbl \<Rightarrow>
                    if fault = Some FailCommit then (c, Inl ErrCommit)
                    else (c\<lparr>db := tbl\<rparr>, Inr (int (length toDelete)))))"

section \<open>Directory scanner (core\_scanner.go)\<close>

definition photoExtensions :: "string list" where
  "photoExtensions =
    [''.jpg'', ''.jpeg'', ''.jpe'', ''.png'', ''.tiff'', ''.tif'', ''.heic'', ''.heif'',
     ''.raw'', ''.cr2'', ''.nef'', ''.arw'']"

definition videoExtensions :: "string list" where
  "videoExtensions =
    [''.mp4'', ''.mov'', ''.avi'', ''.wmv'', ''.mkv'', ''.m4v'', ''.mpg'', ''.mpeg'',
     ''.flv'', ''.3gp'', ''.mts'', ''.m2ts'']"

definition musicExtensions :: "string list" where
  "musicExtensions =
    [''.mp3'', ''.m4a'', ''.flac'', ''.wav'', ''.aac'', ''.ogg'', ''.wma'', ''.alac'']"

definition excludePatterns :: "string list" where
  "excludePatterns =
    [''/.Trash/'', ''/.Thumbnails/'', ''/Thumbnails/'', ''/.deleted_media/'',
     ''/.duplicates-trash/'', ''/System/'', ''/Library/'', ''/Applications/'',
     ''/.config/'', ''/retropie/'', ''/OFFICE/'', ''/Template/'', ''/Software/'',
     ''/Windows/'', ''/Program Files/'']"

text \<open>
  \<open>filepath.Ext\<close> (with \<open>/\<close> as the separator): the suffix beginning at the last dot of
  the last element of the path, empty if there is none.
\<close>

definition filepath_Ext :: "string \<Rightarrow> string" where
  "filepath_Ext path =
    (let last_rev = takeWhile (\<lambda>c. c \<noteq> CHR ''/'') (rev path)
     in if CHR ''.'' \<in> set last_rev
        then CHR ''.'' # rev (takeWhile (\<lambda>c. c \<noteq> CHR ''.'') last_rev)
        else [])"

text \<open>
  \<open>detectMediaType\<close>. \<open>strings.ToLower\<close> maps by Unicode case tables; it is the
  parameter \<open>toLower\<close>, and what is proved of the scanner holds for every such function.
  \<open>ascii_ToLower\<close> is its restriction to ASCII letters, used to run examples.
\<close>

definition detectMediaType :: "(string \<Rightarrow> string) \<Rightarrow> string \<Rightarrow> MediaType" where
  "detectMediaType toLower path =
    (let ext = toLower (filepath_Ext path)
     in if ext \<in> set photoExtensions then TypePhoto
        else if ext \<in> set videoExtensions then TypeVideo
        else if ext \<in> set musicExtensions then TypeMusic
        else TypeUnknown)"

definition ascii_ToLower :: "string \<Rightarrow> string" where
  "ascii_ToLower s =
    map (\<lambda>c. if CHR ''A'' \<le> c \<and> c \<le> CHR ''Z'' then char_of (of_char c + (32::nat)) else c) s"

definition shouldExclude :: "string \<Rightarrow> bool" where
  "shouldExclude path = list_ex (\<lambda>pattern. Contains path pattern) excludePatterns"

text \<open>
  The file tree as \<open>filepath.Walk\<close> presents it. Every node carries the path that
  \<open>Walk\<close> hands to the callback; a directory lists its entries in the order \<open>Walk\<close>
  visits them; \<open>ErrNode\<close> is an entry for which \<open>Lstat\<close> or the reading of the directory
  failed, so that the callback is called with a non-nil error. A file carries its size.
\<close>

datatype fsnode = FileNode string int | DirNode string "fsnode list" | ErrNode string

fun is_DirNode :: "fsnode \<Rightarrow> bool" where
  "is_DirNode (DirNode path entries) = True"
| "is_DirNode (FileNode path sz) = False"
| "is_DirNode (ErrNode path) = False"

text \<open>The variables that the callback of \<open>ScanMediaFiles\<close> closes over.\<close>

record scan_state =
  scan_files :: "MediaFile list"
  scan_count :: int
  scan_photos :: int
  scan_videos :: int
  scan_music :: int

text \<open>What the callback returns: \<open>nil\<close> or \<open>filepath.SkipDir\<close>.\<close>

datatype walk_ret = ret_nil | ret_SkipDir

text \<open>The callback at a directory and at a file; at an \<open>ErrNode\<close> it returns \<open>nil\<close>.\<close>

definition walkFn_dir :: "string \<Rightarrow> scan_state \<Rightarrow> walk_ret \<times> scan_state" where
  "walkFn_dir path st = (if shouldExclude path then (ret_SkipDir, st) else (ret_nil, st))"

definition walkFn_file ::
  "(string \<Rightarrow> string) \<Rightarrow> int \<Rightarrow> string \<Rightarrow> int \<Rightarrow> scan_state \<Rightarrow> walk_ret \<times> scan_state" where
  "walkFn_file toLower limit path sz st =
    (let mediaType = detectMediaType toLower path
     in if mediaType = TypeUnknown then (ret_nil, st)
        else if shouldExclude path then (ret_nil, st)
        else if limit > 0 \<and> scan_count st \<ge> limit then (ret_SkipDir, st)
        else
          let mf = zero_MediaFile\<lparr>Path := path, Size := sz, Type := mediaType\<rparr>
          in (ret_nil,
              st\<lparr>scan_count := scan_count st + 1,
                 scan_files := scan_files st @ [mf],
                 scan_photos := (if mediaType = TypePhoto then scan_photos st + 1
                                 else scan_photos st),
                 scan_videos := (if mediaType = TypeVideo then scan_videos st + 1
                                 else scan_videos st),
                 scan_music := (if mediaType = TypeMusic then scan_music st + 1
                                else scan_music st)\<rparr>))"

text \<open>
  \<open>filepath.Walk\<close>: \<open>walk\<close> visits a node, \<open>walk_entries\<close> is the loop over the entries
  of a directory. \<open>SkipDir\<close> returned at a directory skips that directory; returned at a
  file it ends the loop over the directory that holds the file.
\<close>

fun walk :: "(string \<Rightarrow> string) \<Rightarrow> int \<Rightarrow> fsnode \<Rightarrow> scan_state \<Rightarrow> walk_ret \<times> scan_state"
  and walk_entries ::
    "(string \<Rightarrow> string) \<Rightarrow> int \<Rightarrow> fsnode list \<Rightarrow> scan_state \<Rightarrow> walk_ret \<times> scan_state" where
  "walk toLower limit (FileNode path sz) st = walkFn_file toLower limit path sz st"
| "walk toLower limit (ErrNode path) st = (ret_nil, st)"
| "walk toLower limit (DirNode path entries) st =
    (case walkFn_dir path st of
       (ret_SkipDir, st') \<Rightarrow> (ret_SkipDir, st')
     | (ret_nil, st') \<Rightarrow> walk_entries toLower limit entries st')"
| "walk_entries toLower limit [] st = (ret_nil, st)"
| "walk_entries toLower limit (e # es) st =
    (case walk toLower limit e st of
       (ret_nil, st') \<Rightarrow> walk_entries toLower limit es st'
     | (ret_SkipDir, st') \<Rightarrow>
         if is_DirNode e then walk_entries toLower limit es st' else (ret_SkipDir, st'))"

definition scan_init :: scan_state where
  "scan_init = \<lparr>scan_files = [], scan_count = 0, scan_photos = 0, scan_videos = 0, scan_music = 0\<rparr>"

text \<open>
  \<open>ScanMediaFiles\<close>; \<open>root\<close> is the tree at \<open>basePath\<close>. The callback never returns an
  error other than \<open>SkipDir\<close>, so the error result is always \<open>nil\<close> and is left out.
\<close>

definition ScanMediaFiles :: "(string \<Rightarrow> string) \<Rightarrow> fsnode \<Rightarrow> int \<Rightarrow> MediaFile list" where
  "ScanMediaFiles toLower root limit = scan_files (snd (walk toLower limit root scan_init))"

section \<open>The prune pass of the command line run (runCLI)\<close>

text \<open>
  The part of \<open>runCLI\<close> from the scan to the prune pass. \<open>cache\<close> is \<open>None\<close> when
  \<open>OpenCache\<close> failed. The result is the scanned files, the cache, and the calls of
  \<open>PruneDeleted\<close> that were made, each with its \<open>validPaths\<close>. The interactive
  run guards its prune pass with the same condition.
\<close>

definition runCLI_scan_prune ::
  "(string \<Rightarrow> string) \<Rightarrow> db_fault option \<Rightarrow> Config \<Rightarrow> fsnode \<Rightarrow> Cache option
     \<Rightarrow> MediaFile list \<times> Cache option \<times> string set list" where
  "runCLI_scan_prune toLower fault config root cache =
    (let files = ScanMediaFiles toLower root (FileLimit config)
     in case cache of
          None \<Rightarrow> (files, None, [])
        | Some c \<Rightarrow>
            if FileLimit config = 0 \<or> PruneCache config
            then
              let validPaths = set (map Path files);
                  (c', pruned) = PruneDeleted fault c validPaths
              in (files, Some c', [validPaths])
            else (files, Some c, []))"

section \<open>Library functions used by the organizer\<close>

text \<open>
  \<open>path/filepath\<close> with \<open>/\<close> as the separator. \<open>filepath_Clean\<close> follows the library's
  rules: empty and \<open>.\<close> elements are dropped, \<open>..\<close> removes the element before it (at
  the root it is dropped, in a relative path with nothing to remove it is kept), and the
  empty result is \<open>.\<close>.
\<close>

fun split_slash :: "string \<Rightarrow> string list" where
  "split_slash [] = [[]]"
| "split_slash (c # cs) =
    (if c = CHR ''/'' then [] # split_slash cs
     else (case split_slash cs of [] \<Rightarrow> [[c]] | x # xs \<Rightarrow> (c # x) # xs))"

fun join_slash :: "string list \<Rightarrow> string" where
  "join_slash [] = []"
| "join_slash [x] = x"
| "join_slash (x # y # ys) = x @ CHR ''/'' # join_slash (y # ys)"

fun clean_elems :: "bool \<Rightarrow> string list \<Rightarrow> string list \<Rightarrow> string list" where
  "clean_elems rooted out [] = rev out"
| "clean_elems rooted out (e # es) =
    (if e = [] \<or> e = ''.'' then clean_elems rooted out es
     else if e = ''..''
       then (case out of
               [] \<Rightarrow> if rooted then clean_elems rooted out es
                     else clean_elems rooted [''..''] es
             | last_elem # below \<Rightarrow>
                 if last_elem \<noteq> ''..'' then clean_elems rooted below es
                 else if rooted then clean_elems rooted out es
                 else clean_elems rooted (''..'' # out) es)
     else clean_elems rooted (e # out) es)"

definition filepath_Clean :: "string \<Rightarrow> string" where
  "filepath_Clean path =
    (case path of
       [] \<Rightarrow> ''.''
     | c # cs \<Rightarrow>
         let rooted = (c = CHR ''/'');
             out = join_slash (clean_elems rooted [] (split_slash path));
             out = (if rooted then CHR ''/'' # out else out)
         in if out = [] then ''.'' else out)"

definition filepath_Dir :: "string \<Rightarrow> string" where
  "filepath_Dir path = filepath_Clean (rev (dropWhile (\<lambda>c. c \<noteq> CHR ''/'') (rev path)))"

definition filepath_Base :: "string \<Rightarrow> string" where
  "filepath_Base path =
    (if path = [] then ''.''
     else
       let stripped = dropWhile (\<lambda>c. c = CHR ''/'') (rev path);
           base = rev (takeWhile (\<lambda>c. c \<noteq> CHR ''/'') stripped)
       in if base = [] then ''/'' else base)"

definition filepath_Join :: "string list \<Rightarrow> string" where
  "filepath_Join elem =
    (case dropWhile (\<lambda>e. e = []) elem of
       [] \<Rightarrow> []
     | e # es \<Rightarrow> filepath_Clean (join_slash (e # es)))"

text \<open>
  \<open>strings.ReplaceAll(s, old, "")\<close> for a non-empty \<open>old\<close>: the occurrences are
  removed from left to right; \<open>skip\<close> counts the bytes of a found occurrence still to
  drop.
\<close>

fun remove_all :: "string \<Rightarrow> nat \<Rightarrow> string \<Rightarrow> string" where
  "remove_all old skip [] = []"
| "remove_all old skip (c # cs) =
    (if skip > 0 then remove_all old (skip - 1) cs
     else if old \<noteq> [] \<and> prefix old (c # cs) then remove_all old (length old - 1) cs
     else c # remove_all old 0 cs)"

text \<open>
  \<open>strings.SplitN(s, sep, 2)\<close> for a non-empty \<open>sep\<close>: \<open>cut_first\<close> finds the first
  occurrence of \<open>sep\<close>; the result is \<open>[s]\<close> if there is none, else the text before it
  and the text after it.
\<close>

fun cut_first :: "string \<Rightarrow> string \<Rightarrow> (string \<times> string) option" where
  "cut_first sep [] = (if sep = [] then Some ([], []) else None)"
| "cut_first sep (c # cs) =
    (if prefix sep (c # cs) then Some ([], drop (length sep) (c # cs))
     else (case cut_first sep cs of
             None \<Rightarrow> None
           | Some (before, after) \<Rightarrow> Some (c # before, after)))"

definition strings_SplitN2 :: "string \<Rightarrow> string \<Rightarrow> string list" where
  "strings_SplitN2 s sep =
    (case cut_first sep s of None \<Rightarrow> [s] | Some (before, after) \<Rightarrow> [before, after])"

text \<open>\<open>fmt.Sprintf("%d", n)\<close>.\<close>

fun decimal :: "nat \<Rightarrow> string" where
  "decimal n =
    (if n < 10 then [char_of (48 + n)] else decimal (n div 10) @ [char_of (48 + n mod 10)])"

definition Sprintf_d :: "int \<Rightarrow> string" where
  "Sprintf_d n = (if n < 0 then CHR ''-'' # decimal (nat (- n)) else decimal (nat n))"

text \<open>
  What the organizer takes from outside the program: whether the naming service answers
  (\<open>CheckOllamaAvailable\<close>), the outcome of a naming request (\<open>SuggestAlbumName\<close> with
  the model, the folder and the sample paths; \<open>None\<close> is an error return), the calendar
  functions \<open>Year\<close> and \<open>Format("2006-01")\<close> of \<open>time.Time\<close>, which depend on the
  time zone of the process, \<open>json.Marshal\<close> of a list of strings, and
  \<open>strings.TrimSpace\<close>, which trims Unicode white space. They are parameters.
\<close>

record go_env =
  CheckOllamaAvailable :: bool
  SuggestAlbumName :: "string \<Rightarrow> string \<Rightarrow> string list \<Rightarrow> string option"
  time_Year :: "time \<Rightarrow> int"
  time_Format_ym :: "time \<Rightarrow> string"
  json_Marshal :: "string list \<Rightarrow> string"
  strings_TrimSpace :: "string \<Rightarrow> string"

section \<open>Album organizer (core\_organizer.go)\<close>

text \<open>
  The table \<open>album_suggestions\<close>, keyed by folder path, with the serialized sample list
  and the suggestion (the creation stamp is never read). A nil \<open>albumCache\<close> is \<open>None\<close>.
\<close>

type_synonym suggestion_table = "(string \<times> string \<times> string) list"

definition AlbumSuggestionCache_Get ::
  "go_env \<Rightarrow> suggestion_table \<Rightarrow> string \<Rightarrow> string list \<Rightarrow> string option" where
  "AlbumSuggestionCache_Get env tbl folderPath sampleFiles =
    (case map_of tbl folderPath of
       None \<Rightarrow> None
     | Some (cachedSamples, suggestion) \<Rightarrow>
         if cachedSamples \<noteq> json_Marshal env sampleFiles then None else Some suggestion)"

definition AlbumSuggestionCache_Put ::
  "go_env \<Rightarrow> suggestion_table \<Rightarrow> string \<Rightarrow> string list \<Rightarrow> string \<Rightarrow> suggestion_table" where
  "AlbumSuggestionCache_Put env tbl folderPath sampleFiles suggestion =
    AList.update folderPath (json_Marshal env sampleFiles, suggestion) tbl"

definition fallbackAlbumName :: "go_env \<Rightarrow> string \<Rightarrow> string \<Rightarrow> string" where
  "fallbackAlbumName env sourceDir yearMonth =
    (let dirName = filepath_Base sourceDir;
         dirName = remove_all ''_____'' 0 dirName;
         dirName = strings_TrimSpace env dirName
     in if dirName = '''' \<or> dirName = ''.'' then yearMonth @ '' Photos''
        else yearMonth @ '' '' @ dirName)"

text \<open>
  The map \<open>byDirectory\<close>: the non-music files of a source directory, in input order.
  Go ranges over the map in an unspecified order, which is the parameter \<open>dirs\<close> of
  \<open>OrganizeIntoAlbums\<close>.
\<close>

definition byDirectory :: "MediaFile list \<Rightarrow> string \<Rightarrow> MediaFile list" where
  "byDirectory files sourceDir =
    filter (\<lambda>mf. Type mf \<noteq> TypeMusic \<and> filepath_Dir (Path mf) = sourceDir) files"

definition byDirectory_keys :: "MediaFile list \<Rightarrow> string list" where
  "byDirectory_keys files =
    remdups (map (\<lambda>mf. filepath_Dir (Path mf)) (filter (\<lambda>mf. Type mf \<noteq> TypeMusic) files))"

text \<open>The median capture date of a group: the element at \<open>len/2\<close> of the sorted dates.\<close>

definition median_date :: "MediaFile list \<Rightarrow> time option" where
  "median_date dirFiles =
    (let dates = List.map_filter DateTaken dirFiles
     in if length dates > 0 then Some (sort_Slice Before dates ! (length dates div 2))
        else None)"

text \<open>The naming step of the loop: the name and the suggestion cache after it.\<close>

definition suggest_name ::
  "go_env \<Rightarrow> Config \<Rightarrow> suggestion_table option \<Rightarrow> string \<Rightarrow> MediaFile list \<Rightarrow> string
     \<Rightarrow> string \<times> suggestion_table option" where
  "suggest_name env config albumCache sourceDir dirFiles yearMonth =
    (if CheckOllamaAvailable env
     then
       let samplePaths = map Path (take 5 dirFiles);
           cached = (case albumCache of
                       None \<Rightarrow> None
                     | Some tbl \<Rightarrow> AlbumSuggestionCache_Get env tbl sourceDir samplePaths)
       in case cached of
            Some suggestion \<Rightarrow> (suggestion, albumCache)
          | None \<Rightarrow>
              (case SuggestAlbumName env (OllamaModel config) sourceDir samplePaths of
                 None \<Rightarrow> (fallbackAlbumName env sourceDir yearMonth, albumCache)
               | Some suggested \<Rightarrow>
                   if suggested \<noteq> ''''
                   then (suggested,
                         (case albumCache of
                            None \<Rightarrow> None
                          | Some tbl \<Rightarrow>
                              Some (AlbumSuggestionCache_Put env tbl sourceDir samplePaths
                                      suggested)))
                   else (fallbackAlbumName env sourceDir yearMonth, albumCache))
     else (fallbackAlbumName env sourceDir yearMonth, albumCache))"

text \<open>
  One iteration of the loop over \<open>byDirectory\<close>. \<open>albums\<close> holds the albums made so far;
  \<open>albumsByName\<close> indexes exactly these by name, so the lookup in it is the search for the
  name in \<open>albums\<close>, and the update through the pointer is the update of that album.
  Past the length test \<open>dirFiles\<close> has at least three elements, so \<open>dirFiles[0]\<close> is
  its head. The progress messages are left out.
\<close>

definition organize_dir ::
  "go_env \<Rightarrow> Config \<Rightarrow> MediaFile list \<Rightarrow> string \<Rightarrow> Album list \<times> suggestion_table option
     \<Rightarrow> Album list \<times> suggestion_table option" where
  "organize_dir env config files sourceDir acc =
    (case acc of (albums, albumCache) \<Rightarrow>
     let dirFiles = byDirectory files sourceDir
     in if length dirFiles < 3 then (albums, albumCache)
        else
          let medianDate = median_date dirFiles;
              yearMonth = (case medianDate of
                             Some median \<Rightarrow> time_Format_ym env median
                           | None \<Rightarrow> ''Unknown Date'');
              (albumName, albumCache') =
                 suggest_name env config albumCache sourceDir dirFiles yearMonth;
              year = (case medianDate of
                        Some median \<Rightarrow> Sprintf_d (time_Year env median)
                      | None \<Rightarrow> ''Unknown'');
              destDir = (if Type (hd dirFiles) = TypePhoto
                         then filepath_Join [LibraryBase config, ''Photos'', year, albumName]
                         else filepath_Join [LibraryBase config, ''Videos'', year, albumName])
          in if list_ex (\<lambda>existing. Name existing = albumName) albums
             then (map (\<lambda>existing.
                          if Name existing = albumName
                          then existing\<lparr>Files := Files existing @ dirFiles,
                                        SourceDirs := SourceDirs existing @ [sourceDir]\<rparr>
                          else existing) albums,
                   albumCache')
             else (albums @ [\<lparr>Name = albumName, Destination = destDir, Files = dirFiles,
                               SourceDirs = [sourceDir], Date = medianDate,
                               Album_Type = Type (hd dirFiles)\<rparr>],
                   albumCache'))"

definition organize_dirs ::
  "go_env \<Rightarrow> Config \<Rightarrow> MediaFile list \<Rightarrow> string list \<Rightarrow> Album list \<times> suggestion_table option
     \<Rightarrow> Album list \<times> suggestion_table option" where
  "organize_dirs env config files dirs acc = fold (organize_dir env config files) dirs acc"

text \<open>
  \<open>organizeMusicFiles\<close>. \<open>music_key\<close> is the key built for a file; \<open>byAlbum\<close> maps a key
  to its files; the loop over the map, in the order \<open>names\<close>, splits the key again.
  \<open>parts[1]\<close> panics if the split yields one part.
\<close>

definition music_artist :: "MediaFile \<Rightarrow> string" where
  "music_artist mf = (if Artist mf = '''' then ''Unknown Artist'' else Artist mf)"

definition music_album :: "MediaFile \<Rightarrow> string" where
  "music_album mf = (if Album mf = '''' then ''Unknown Album'' else Album mf)"

definition music_key :: "MediaFile \<Rightarrow> string" where
  "music_key mf = music_artist mf @ '' - '' @ music_album mf"

definition byAlbum :: "MediaFile list \<Rightarrow> string \<Rightarrow> MediaFile list" where
  "byAlbum files key = filter (\<lambda>mf. Type mf = TypeMusic \<and> music_key mf = key) files"

definition byAlbum_keys :: "MediaFile list \<Rightarrow> string list" where
  "byAlbum_keys files = remdups (map music_key (filter (\<lambda>mf. Type mf = TypeMusic) files))"

fun organizeMusicFiles_loop ::
  "Config \<Rightarrow> MediaFile list \<Rightarrow> string list \<Rightarrow> Album list \<Rightarrow> go_panic + Album list" where
  "organizeMusicFiles_loop config files [] albums = Inr albums"
| "organizeMusicFiles_loop config files (name # names) albums =
    (case strings_SplitN2 name '' - '' of
       artist # albumName # rest \<Rightarrow>
         organizeMusicFiles_loop config files names
           (albums @ [\<lparr>Name = name,
                        Destination = filepath_Join [LibraryBase config, ''Music'', artist, albumName],
                        Files = byAlbum files name,
                        SourceDirs = [''various''],
                        Date = None,
                        Album_Type = TypeMusic\<rparr>])
     | _ \<Rightarrow> Inl IndexOutOfRange)"

definition organizeMusicFiles :: "Config \<Rightarrow> string list \<Rightarrow> MediaFile list \<Rightarrow> go_panic + Album list" where
  "organizeMusicFiles config names files = organizeMusicFiles_loop config files names []"

text \<open>\<open>filterAlbumsWithNewFiles\<close>: \<open>needs_move\<close> is the test of its inner loop.\<close>

definition needs_move :: "Album \<Rightarrow> MediaFile \<Rightarrow> bool" where
  "needs_move album file =
    (let destPath = filepath_Join [Destination album, filepath_Base (Path file)]
     in IsNew file \<or> Path file \<noteq> destPath)"

fun filterAlbumsWithNewFiles :: "Album list \<Rightarrow> Album list" where
  "filterAlbumsWithNewFiles [] = []"
| "filterAlbumsWithNewFiles (album # albums) =
    (let newFiles = filter (needs_move album) (Files album)
     in if newFiles \<noteq> []
        then \<lparr>Name = Name album, Destination = Destination album, Files = newFiles,
              SourceDirs = SourceDirs album, Date = Date album,
              Album_Type = Album_Type album\<rparr> # filterAlbumsWithNewFiles albums
        else filterAlbumsWithNewFiles albums)"

text \<open>
  \<open>OrganizeIntoAlbums\<close>: the albums before the filter (\<open>albums_before_filter\<close>) and the
  result. The returned error is always \<open>nil\<close>; \<open>Inl\<close> is a panic.
\<close>

definition albums_before_filter ::
  "go_env \<Rightarrow> Config \<Rightarrow> string list \<Rightarrow> string list \<Rightarrow> MediaFile list \<Rightarrow> suggestion_table option
     \<Rightarrow> go_panic + Album list" where
  "albums_before_filter env config dirs names files albumCache =
    (let albums = fst (organize_dirs env config files dirs ([], albumCache))
     in case organizeMusicFiles config names files of
          Inl e \<Rightarrow> Inl e
        | Inr musicAlbums \<Rightarrow> Inr (albums @ musicAlbums))"

definition OrganizeIntoAlbums ::
  "go_env \<Rightarrow> Config \<Rightarrow> string list \<Rightarrow> string list \<Rightarrow> MediaFile list \<Rightarrow> suggestion_table option
     \<Rightarrow> go_panic + Album list" where
  "OrganizeIntoAlbums env config dirs names files albumCache =
    (case albums_before_filter env config dirs names files albumCache of
       Inl e \<Rightarrow> Inl e
     | Inr albums \<Rightarrow> Inr (filterAlbumsWithNewFiles albums))"

section \<open>Example inputs\<close>

text \<open>
  Two files with the same digest: the larger one lies under \<open>/Recovered/\<close>, the smaller
  one does not.
\<close>

definition dup_recovered_2k :: MediaFile where
  "dup_recovered_2k =
    zero_MediaFile\<lparr>Path := ''/src/Recovered/a.jpg'', Size := 2048, Hash := ''d1''\<rparr>"

definition dup_plain_1k :: MediaFile where
  "dup_plain_1k = zero_MediaFile\<lparr>Path := ''/src/b.jpg'', Size := 1024, Hash := ''d1''\<rparr>"

text \<open>
  Two files of the same size and digest: one under \<open>/Recovered/\<close> but in an organized
  folder and with camera metadata, the other under an \<open>UNNAMED_\<close> folder.
\<close>

definition dup_recovered_organized :: MediaFile where
  "dup_recovered_organized =
    zero_MediaFile\<lparr>Path := ''/src/Recovered/Photo/c.jpg'', Size := 4096, Hash := ''d2'',
                    CameraMake := ''Canon''\<rparr>"

definition dup_unnamed :: MediaFile where
  "dup_unnamed =
    zero_MediaFile\<lparr>Path := ''/src/UNNAMED_7/d.jpg'', Size := 4096, Hash := ''d2''\<rparr>"

text \<open>
  A photo whose capture date has a sub-second part, a heap in which every reference
  points to it, and caches: empty, holding its row, and holding a second row.
\<close>

definition photo_record :: MediaFile where
  "photo_record =
    zero_MediaFile\<lparr>Path := ''/src/a.jpg'', Size := 2048, Hash := ''d1'',
                    DateTaken := Some (Time 1593604800 500000000),
                    CameraMake := ''Canon'', Width := 640, Height := 480, IsNew := True\<rparr>"

definition example_heap :: heap where
  "example_heap = (\<lambda>r. photo_record)"

definition cache_empty :: Cache where
  "cache_empty = \<lparr>db = [], writeChan = []\<rparr>"

definition cache_one_row :: Cache where
  "cache_one_row = writeToDatabase cache_empty photo_record (Time 1700000000 0) 1700000100"

definition cache_two_rows :: Cache where
  "cache_two_rows =
     writeToDatabase cache_one_row dup_plain_1k (Time 1700000000 0) 1700000100"

text \<open>A configuration and a directory with two photos.\<close>

definition config_default :: Config where
  "config_default =
    \<lparr>ScanPath = ''/src'', LibraryBase = ''/src/MediaLibrary'',
     DuplicatesTrash = ''/src/.duplicates-trash'',
     OllamaModel = ''gemma2:2b'', DryRun = True, FileLimit = 0, Workers = 4, PruneCache = False\<rparr>"

definition tree_two_photos :: fsnode where
  "tree_two_photos = DirNode ''/src'' [FileNode ''/src/a.jpg'' 2048, FileNode ''/src/b.jpg'' 1024]"

text \<open>
  A scanned tree: an excluded directory inside the trash folder, an unreadable entry,
  three media files and a text file.
\<close>

definition tree_scan :: fsnode where
  "tree_scan =
    DirNode ''/src''
      [DirNode ''/src/.Trash''
         [DirNode ''/src/.Trash/old'' [FileNode ''/src/.Trash/old/x.jpg'' 5],
          FileNode ''/src/.Trash/y.jpg'' 1],
       ErrNode ''/src/locked'',
       FileNode ''/src/a.JPG'' 2048,
       FileNode ''/src/b.mp3'' 7,
       FileNode ''/src/c.mov'' 9,
       FileNode ''/src/notes.txt'' 10]"

text \<open>
  The invariant of the scan: the counter is the number of collected files, it stays
  within a positive limit, and every collected file has the type detected from its path,
  which is not \<open>TypeUnknown\<close>, and a path that is not excluded.
\<close>

definition scan_ok :: "(string \<Rightarrow> string) \<Rightarrow> int \<Rightarrow> scan_state \<Rightarrow> bool" where
  "scan_ok toLower limit st \<longleftrightarrow>
     scan_count st = int (length (scan_files st))
     \<and> (0 < limit \<longrightarrow> scan_count st \<le> limit)
     \<and> (\<forall>f\<in>set (scan_files st).
           Type f = detectMediaType toLower (Path f) \<and> Type f \<noteq> TypeUnknown
           \<and> \<not> shouldExclude (Path f))"

text \<open>A music file whose artist ends in a blank and a dash.\<close>

definition music_dash :: MediaFile where
  "music_dash =
    zero_MediaFile\<lparr>Path := ''/src/m.mp3'', Size := 4096, Type := TypeMusic,
                    Artist := ''X -'', Album := ''Y''\<rparr>"

text \<open>
  The album that the loop of \<open>organizeMusicFiles\<close> appends for a key, when the key
  splits into two parts.
\<close>

definition music_plan :: "Config \<Rightarrow> MediaFile list \<Rightarrow> string \<Rightarrow> Album" where
  "music_plan config files name =
    \<lparr>Name = name,
     Destination = (case cut_first '' - '' name of
                      Some (artist, albumName) \<Rightarrow>
                        filepath_Join [LibraryBase config, ''Music'', artist, albumName]
                    | None \<Rightarrow> []),
     Files = byAlbum files name, SourceDirs = [''various''], Date = None,
     Album_Type = TypeMusic\<rparr>"

text \<open>
  An environment in which to run the organizer: the naming service answers \<open>Trip\<close> to
  every request, the calendar is that of UTC (\<open>utc_civil\<close> turns a day number into year
  and month), and \<open>json.Marshal\<close> and \<open>strings.TrimSpace\<close> are given for ASCII text
  without characters that JSON escapes.
\<close>

definition utc_civil :: "int \<Rightarrow> int \<times> int" where
  "utc_civil days =
    (let z = days + 719468;
         era = z div 146097;
         doe = z mod 146097;
         yoe = (doe - doe div 1460 + doe div 36524 - doe div 146096) div 365;
         doy = doe - (365 * yoe + yoe div 4 - yoe div 100);
         mp = (5 * doy + 2) div 153;
         m = (if mp < 10 then mp + 3 else mp - 9);
         y = yoe + era * 400
     in (if m \<le> 2 then y + 1 else y, m))"

definition utc_Year :: "time \<Rightarrow> int" where
  "utc_Year t = fst (utc_civil (Unix t div 86400))"

definition pad_decimal :: "nat \<Rightarrow> int \<Rightarrow> string" where
  "pad_decimal width n =
    (let ds = decimal (nat n) in replicate (width - length ds) CHR ''0'' @ ds)"

definition utc_Format_ym :: "time \<Rightarrow> string" where
  "utc_Format_ym t =
    (case utc_civil (Unix t div 86400) of
       (y, m) \<Rightarrow> pad_decimal 4 y @ ''-'' @ pad_decimal 2 m)"

definition ascii_json_Marshal :: "string list \<Rightarrow> string" where
  "ascii_json_Marshal strs =
    ''['' @ concat (map (\<lambda>(i, s). (if i = 0 then [] else '','')
                                          @ [CHR 0x22] @ s @ [CHR 0x22])
                               (zip [0..<length strs] strs)) @ '']''"

definition ascii_space :: "char \<Rightarrow> bool" where
  "ascii_space c \<longleftrightarrow> c \<in> set [CHR '' '', CHR 0x09, CHR 0x0A, CHR 0x0B, CHR 0x0C, CHR 0x0D]"

definition ascii_TrimSpace :: "string \<Rightarrow> string" where
  "ascii_TrimSpace s = rev (dropWhile ascii_space (rev (dropWhile ascii_space s)))"

definition env_trip :: go_env where
  "env_trip =
    \<lparr>CheckOllamaAvailable = True,
     SuggestAlbumName = (\<lambda>model folderPath sampleFiles. Some ''Trip''),
     time_Year = utc_Year,
     time_Format_ym = utc_Format_ym,
     json_Marshal = ascii_json_Marshal,
     strings_TrimSpace = ascii_TrimSpace\<rparr>"

text \<open>
  Three photos already at their destination \<open>/src/MediaLibrary/Photos/2020/Trip\<close>, known from an
  earlier run, three new photos in \<open>/src/Trip\<close> and two in \<open>/src/Pair\<close>; all taken
  on 2020-07-01.
\<close>

definition settled_photo :: "string \<Rightarrow> MediaFile" where
  "settled_photo name =
    zero_MediaFile\<lparr>Path := ''/src/MediaLibrary/Photos/2020/Trip/'' @ name, Size := 2048,
                    DateTaken := Some (Time 1593604800 0), IsNew := False\<rparr>"

definition new_photo :: "string \<Rightarrow> MediaFile" where
  "new_photo name =
    zero_MediaFile\<lparr>Path := ''/src/Trip/'' @ name, Size := 2048,
                    DateTaken := Some (Time 1593604800 0), IsNew := True\<rparr>"

definition pair_photo :: "string \<Rightarrow> MediaFile" where
  "pair_photo name =
    zero_MediaFile\<lparr>Path := ''/src/Pair/'' @ name, Size := 2048,
                    DateTaken := Some (Time 1593604800 0), IsNew := True\<rparr>"

definition settled_files :: "MediaFile list" where
  "settled_files = [settled_photo ''p1.jpg'', settled_photo ''p2.jpg'', settled_photo ''p3.jpg'']"

definition new_files :: "MediaFile list" where
  "new_files = [new_photo ''n1.jpg'', new_photo ''n2.jpg'', new_photo ''n3.jpg'']"

definition pair_files :: "MediaFile list" where
  "pair_files = [pair_photo ''q1.jpg'', pair_photo ''q2.jpg'']"

text \<open>
  The name and the year-month label that one run computes for a source directory. A
  lookup in the suggestion cache reads only the row of that directory, and the loop
  writes only the rows of directories it has visited, so the name is the one computed
  against the cache as it was at the start (\<open>organize_dirs_inv\<close> below).
\<close>

definition dir_yearMonth :: "go_env \<Rightarrow> MediaFile list \<Rightarrow> string \<Rightarrow> string" where
  "dir_yearMonth env files sourceDir =
    (case median_date (byDirectory files sourceDir) of
       Some median \<Rightarrow> time_Format_ym env median
     | None \<Rightarrow> ''Unknown Date'')"

definition computed_name ::
  "go_env \<Rightarrow> Config \<Rightarrow> suggestion_table option \<Rightarrow> MediaFile list \<Rightarrow> string \<Rightarrow> string" where
  "computed_name env config albumCache files sourceDir =
    fst (suggest_name env config albumCache sourceDir (byDirectory files sourceDir)
           (dir_yearMonth env files sourceDir))"

definition cache_row :: "suggestion_table option \<Rightarrow> string \<Rightarrow> (string \<times> string) option" where
  "cache_row albumCache folderPath =
    (case albumCache of None \<Rightarrow> None | Some tbl \<Rightarrow> map_of tbl folderPath)"

text \<open>
  The invariant of the loop over the directories \<open>ds\<close> visited so far, for the cache
  \<open>c0\<close> at the start: the cache agrees with \<open>c0\<close> on all other directories; the album
  names are pairwise distinct; every album is a photo or video album whose source
  directories are visited directories with at least three files, whose name is the name
  computed for each of them, and whose files are the groups of its source directories
  one after the other; every visited directory with at least three files is a source
  directory of some album.
\<close>

definition organize_dirs_inv ::
  "go_env \<Rightarrow> Config \<Rightarrow> MediaFile list \<Rightarrow> suggestion_table option \<Rightarrow> string set
     \<Rightarrow> Album list \<times> suggestion_table option \<Rightarrow> bool" where
  "organize_dirs_inv env config files c0 ds acc \<longleftrightarrow>
    (case acc of (albums, c) \<Rightarrow>
       (c = None \<longleftrightarrow> c0 = None)
       \<and> (\<forall>d. d \<notin> ds \<longrightarrow> cache_row c d = cache_row c0 d)
       \<and> distinct (map Name albums)
       \<and> (\<forall>a\<in>set albums.
             Album_Type a \<noteq> TypeMusic
             \<and> set (SourceDirs a) \<subseteq> {d \<in> ds. 3 \<le> length (byDirectory files d)}
             \<and> (\<forall>d\<in>set (SourceDirs a). computed_name env config c0 files d = Name a)
             \<and> Files a = concat (map (byDirectory files) (SourceDirs a)))
       \<and> (\<forall>d\<in>ds. 3 \<le> length (byDirectory files d)
             \<longrightarrow> (\<exists>a\<in>set albums. d \<in> set (SourceDirs a))))"

section \<open>Duplicate resolution: properties\<close>

lemma dup_score_sum:
  "dup_score mf =
     go_quot (Size mf) 1024
     + (if Contains (Path mf) ''/Recovered/'' then 0 else 1000000)
     + (if list_ex (Contains (Path mf)) organized_patterns then 500000 else 0)
     - (if Contains (Path mf) ''/UNNAMED_'' then 500000 else 0)
     + (if CameraMake mf = '''' then 0 else 10000)
     + (if Album mf = '''' then 0 else 10000)"
  by (simp add: dup_score_def Let_def)

lemma go_quot_1024_bounds:
  assumes "int64_range n"
  shows "- (2 ^ 53) \<le> go_quot n 1024" and "go_quot n 1024 \<le> 2 ^ 53"
proof -
  have a: "\<bar>n\<bar> \<le> 2 ^ 63" using assms by (simp add: int64_range_def abs_le_iff)
  have "\<bar>n\<bar> div 1024 \<le> (2 ^ 63) div (1024::int)" using a by (rule zdiv_mono1) simp
  then have b: "\<bar>n\<bar> div 1024 \<le> 2 ^ 53" by simp
  have c: "0 \<le> \<bar>n\<bar> div 1024" by simp
  have "go_quot n 1024 = sgn n * (\<bar>n\<bar> div 1024)" by (simp add: go_quot_def)
  then have "go_quot n 1024 = \<bar>n\<bar> div 1024 \<or> go_quot n 1024 = - (\<bar>n\<bar> div 1024) \<or> go_quot n 1024 = 0"
    by (cases "n = 0"; cases "n < 0") (simp_all add: sgn_if)
  with b c show "- (2 ^ 53) \<le> go_quot n 1024" and "go_quot n 1024 \<le> 2 ^ 53"
    by auto
qed

lemma dup_score_int64: "int64_range (Size mf) \<Longrightarrow> int64_range (dup_score mf)"
  using go_quot_1024_bounds [of "Size mf"]
  by (simp add: dup_score_sum int64_range_def)

lemma dup_less_asym: "dup_less a b \<Longrightarrow> \<not> dup_less b a"
  by (auto simp: dup_less_def Let_def split: if_splits)

lemma dup_le_trans: "\<not> dup_less b a \<Longrightarrow> \<not> dup_less c b \<Longrightarrow> \<not> dup_less c a"
  by (auto simp: dup_less_def Let_def split: if_splits)

lemma dup_less_total: "Path a \<noteq> Path b \<Longrightarrow> dup_less a b \<or> dup_less b a"
  by (auto simp: dup_less_def Let_def)

lemma mset_insert_by: "mset (insert_by lt x ys) = add_mset x (mset ys)"
  by (induction ys) auto

lemma set_insert_by: "set (insert_by lt x ys) = insert x (set ys)"
  by (induction ys) auto

lemma mset_sort_Slice: "mset (sort_Slice lt xs) = mset xs"
  by (induction xs) (auto simp: sort_Slice_def mset_insert_by)

lemma sorted_insert_by:
  assumes asym: "\<And>a b. lt a b \<Longrightarrow> \<not> lt b a"
    and trans: "\<And>a b c. \<not> lt b a \<Longrightarrow> \<not> lt c b \<Longrightarrow> \<not> lt c a"
  shows "sorted_wrt (\<lambda>a b. \<not> lt b a) ys \<Longrightarrow> sorted_wrt (\<lambda>a b. \<not> lt b a) (insert_by lt x ys)"
proof (induction ys)
  case Nil
  then show ?case by simp
next
  case (Cons y ys)
  show ?case
  proof (cases "lt x y")
    case True
    then have xy: "\<not> lt y x" by (rule asym)
    have "\<forall>z\<in>set ys. \<not> lt z x"
      using Cons.prems xy trans by auto
    with xy Cons.prems True show ?thesis by auto
  next
    case False
    with Cons show ?thesis by (auto simp: set_insert_by)
  qed
qed

lemma sorted_sort_Slice:
  assumes asym: "\<And>a b. lt a b \<Longrightarrow> \<not> lt b a"
    and trans: "\<And>a b c. \<not> lt b a \<Longrightarrow> \<not> lt c b \<Longrightarrow> \<not> lt c a"
  shows "sorted_wrt (\<lambda>a b. \<not> lt b a) (sort_Slice lt xs)"
proof (induction xs)
  case Nil
  then show ?case by (simp add: sort_Slice_def)
next
  case (Cons x xs)
  have "sort_Slice lt (x # xs) = insert_by lt x (sort_Slice lt xs)"
    by (simp add: sort_Slice_def)
  with Cons sorted_insert_by [of lt, OF asym trans] show ?case by simp
qed

text \<open>The insertion sort realises the contract of \<open>sort.Slice\<close> for \<open>dup_less\<close>.\<close>

lemma sort_Slice_contract: "sort_contract dup_less xs (sort_Slice dup_less xs)"
proof -
  have "sorted_wrt (\<lambda>a b. \<not> dup_less b a) (sort_Slice dup_less xs)"
    by (rule sorted_sort_Slice) (erule dup_less_asym, erule (1) dup_le_trans)
  then show ?thesis
    by (simp add: sort_contract_def mset_sort_Slice)
qed

lemma score_best_unique:
  assumes "score_best files b" and "score_best files c"
  shows "b = c"
proof (rule ccontr)
  assume "b \<noteq> c"
  with assms have "dup_less b c" "dup_less c b"
    by (auto simp: score_best_def list_all_iff)
  then show False using dup_less_asym by blast
qed

text \<open>
  Whatever algorithm \<open>sort.Slice\<close> runs: every outcome that meets its contract puts the
  same record first when the paths are pairwise distinct.
\<close>

lemma sort_contract_head:
  assumes c: "sort_contract dup_less files ys"
    and d: "distinct (map Path files)"
    and ne: "files \<noteq> []"
  shows "\<exists>b rest. ys = b # rest \<and> score_best files b"
proof -
  from c have m: "mset ys = mset files" and s: "sorted_wrt (\<lambda>a b. \<not> dup_less b a) ys"
    by (simp_all add: sort_contract_def)
  from m ne obtain b rest where ys: "ys = b # rest"
    by (cases ys) auto
  from m have st: "set ys = set files" by (rule mset_eq_setD)
  from m d have dy: "distinct (map Path ys)"
    by (metis distinct_map mset_eq_setD mset_map mset_eq_imp_distinct_iff)
  have "f = b \<or> dup_less b f" if "f \<in> set files" for f
  proof (cases "f = b")
    case True then show ?thesis by simp
  next
    case False
    with that st ys have fr: "f \<in> set rest" by auto
    with s ys have "\<not> dup_less f b" by auto
    moreover from dy ys fr have "Path b \<noteq> Path f" by auto
    ultimately show ?thesis using dup_less_total by blast
  qed
  with ys st show ?thesis by (auto simp: score_best_def list_all_iff)
qed

lemma chooseBestDuplicate_score_best:
  assumes "distinct (map Path files)" and "files \<noteq> []"
  shows "\<exists>b. chooseBestDuplicate files = Inr b \<and> score_best files b"
  using sort_contract_head [OF sort_Slice_contract assms]
  by (auto simp: chooseBestDuplicate_def)

lemma score_best_mset: "mset ys = mset xs \<Longrightarrow> score_best xs b \<Longrightarrow> score_best ys b"
  by (auto simp: score_best_def list_all_iff dest: mset_eq_setD)

text \<open>
  With equal sizes, the bonuses below the \<open>/Recovered/\<close> band add up to more than that
  band is apart from the \<open>UNNAMED_\<close> penalty.
\<close>

lemma lower_bonuses_override_recovered:
  "chooseBestDuplicate [dup_unnamed, dup_recovered_organized] = Inr dup_recovered_organized
   \<and> spec_better dup_unnamed dup_recovered_organized"
  by code_simp

lemma byHash_distinct: "distinct (map Path files) \<Longrightarrow> distinct (map Path (byHash files h))"
  by (simp add: byHash_def distinct_map_filter)

lemma FindDuplicates_loop_groups:
  assumes d: "distinct (map Path files)"
  shows "\<exists>gs. FindDuplicates_loop files hashes acc = Inr (acc @ gs)
          \<and> map Group_Hash gs = filter (\<lambda>h. 1 < length (byHash files h)) hashes
          \<and> list_all (\<lambda>g. sort_contract dup_less (byHash files (Group_Hash g)) (Group_Files g)
                          \<and> score_best (byHash files (Group_Hash g)) (Best g)) gs"
proof (induction hashes arbitrary: acc)
  case Nil
  then show ?case by simp
next
  case (Cons h hashes)
  show ?case
  proof (cases "1 < length (byHash files h)")
    case False
    with Cons [of acc] show ?thesis by (simp add: Let_def)
  next
    case True
    then have ne: "byHash files h \<noteq> []" by auto
    from chooseBestDuplicate_score_best [OF byHash_distinct [OF d] ne]
    obtain b where b: "chooseBestDuplicate (byHash files h) = Inr b"
      "score_best (byHash files h) b" by blast
    let ?g = "\<lparr>Group_Hash = h, Group_Files = sort_Slice dup_less (byHash files h), Best = b\<rparr>"
    from Cons [of "acc @ [?g]"] obtain gs where gs:
      "FindDuplicates_loop files hashes (acc @ [?g]) = Inr ((acc @ [?g]) @ gs)"
      "map Group_Hash gs = filter (\<lambda>h. 1 < length (byHash files h)) hashes"
      "list_all (\<lambda>g. sort_contract dup_less (byHash files (Group_Hash g)) (Group_Files g)
                          \<and> score_best (byHash files (Group_Hash g)) (Best g)) gs"
      by blast
    have step: "FindDuplicates_loop files (h # hashes) acc
                = FindDuplicates_loop files hashes (acc @ [?g])"
      using True b(1) by (simp add: Let_def)
    have g: "sort_contract dup_less (byHash files (Group_Hash ?g)) (Group_Files ?g)
             \<and> score_best (byHash files (Group_Hash ?g)) (Best ?g)"
      using b(2) sort_Slice_contract [of "byHash files h"] by simp
    have "FindDuplicates_loop files (h # hashes) acc = Inr (acc @ (?g # gs))"
      using step gs(1) by simp
    moreover have "map Group_Hash (?g # gs)
        = filter (\<lambda>h. 1 < length (byHash files h)) (h # hashes)"
      using True gs(2) by simp
    moreover have "list_all (\<lambda>g. sort_contract dup_less (byHash files (Group_Hash g)) (Group_Files g)
                          \<and> score_best (byHash files (Group_Hash g)) (Best g)) (?g # gs)"
      using g gs(3) by simp
    ultimately show ?thesis by blast
  qed
qed

text \<open>
  \<open>FindDuplicates\<close> makes one group for every digest carried by two or more files, in
  the order in which the map yields the digests; the files of a group are the files
  with that digest, and its Best is the record that \<open>chooseBestDuplicate\<close> selects among
  them.
\<close>

lemma FindDuplicates_groups:
  assumes "distinct (map Path files)"
  shows "\<exists>groups. FindDuplicates hashes files = Inr groups
          \<and> map Group_Hash groups = filter (\<lambda>h. 1 < length (byHash files h)) hashes
          \<and> list_all (\<lambda>g. mset (Group_Files g) = mset (byHash files (Group_Hash g))
                          \<and> 1 < length (Group_Files g)
                          \<and> Best g \<in> set (Group_Files g)
                          \<and> score_best (Group_Files g) (Best g)) groups"
proof -
  from FindDuplicates_loop_groups [OF assms, of hashes "[]"] obtain gs where gs:
    "FindDuplicates_loop files hashes [] = Inr gs"
    "map Group_Hash gs = filter (\<lambda>h. 1 < length (byHash files h)) hashes"
    "list_all (\<lambda>g. sort_contract dup_less (byHash files (Group_Hash g)) (Group_Files g)
                          \<and> score_best (byHash files (Group_Hash g)) (Best g)) gs"
    by auto
  have "mset (Group_Files g) = mset (byHash files (Group_Hash g))
        \<and> 1 < length (Group_Files g)
        \<and> Best g \<in> set (Group_Files g)
        \<and> score_best (Group_Files g) (Best g)" if "g \<in> set gs" for g
  proof -
    from gs(3) that have c: "sort_contract dup_less (byHash files (Group_Hash g)) (Group_Files g)"
      and s: "score_best (byHash files (Group_Hash g)) (Best g)"
      by (auto simp: list_all_iff)
    from c have m: "mset (Group_Files g) = mset (byHash files (Group_Hash g))"
      by (simp add: sort_contract_def)
    from that have "Group_Hash g \<in> set (map Group_Hash gs)" by simp
    with gs(2) have "1 < length (byHash files (Group_Hash g))" by simp
    with m have l: "1 < length (Group_Files g)" by (metis size_mset)
    from m s have s': "score_best (Group_Files g) (Best g)" by (rule score_best_mset)
    then have "Best g \<in> set (Group_Files g)" by (simp add: score_best_def)
    with m l s' show ?thesis by simp
  qed
  then have "list_all (\<lambda>g. mset (Group_Files g) = mset (byHash files (Group_Hash g))
                          \<and> 1 < length (Group_Files g)
                          \<and> Best g \<in> set (Group_Files g)
                          \<and> score_best (Group_Files g) (Best g)) gs"
    by (simp add: list_all_iff)
  with gs(1,2) show ?thesis by (auto simp: FindDuplicates_def)
qed

text \<open>
  The stated priority order fails on the pair \<open>dup_recovered_2k\<close>, \<open>dup_plain_1k\<close>: the
  first is larger, so it is the maximum of the lexicographic order, but the bonus for a
  path outside \<open>/Recovered/\<close> outweighs one kilobyte and the second is chosen.
\<close>

theorem chooseBestDuplicate_not_lexicographic:
  "chooseBestDuplicate [dup_recovered_2k, dup_plain_1k] = Inr dup_plain_1k
   \<and> spec_better dup_recovered_2k dup_plain_1k
   \<and> \<not> spec_best [dup_recovered_2k, dup_plain_1k] dup_plain_1k"
  by code_simp

text \<open>
  Claim C2, as amended. For every group of two or more records with pairwise distinct
  paths, the record selected as Best is a member of the group and is the maximum of the
  summed score \<open>dup_score\<close> (size in kilobytes, plus 1000000 outside \<open>/Recovered/\<close>, plus
  500000 under an organized-media marker, minus 500000 under \<open>/UNNAMED_\<close>, plus 10000 for
  a camera make and 10000 for an album, see \<open>dup_score_sum\<close>): every other record has a
  smaller score, or the same score and a lexicographically larger path. The bands of the
  sum are not a lexicographic priority.
\<close>

theorem chooseBestDuplicate_max_score:
  assumes "distinct (map Path files)" and "1 < length files"
  shows "\<exists>best. chooseBestDuplicate files = Inr best \<and> best \<in> set files \<and>
           (\<forall>f\<in>set files. f \<noteq> best \<longrightarrow>
              dup_score f < dup_score best \<or>
              (dup_score f = dup_score best \<and> Path best < Path f))"
proof -
  from assms(2) have "files \<noteq> []" by auto
  from chooseBestDuplicate_score_best [OF assms(1) this]
  obtain b where b: "chooseBestDuplicate files = Inr b" "score_best files b" by blast
  from b(2) have "b \<in> set files"
    and "\<forall>f\<in>set files. f \<noteq> b \<longrightarrow> dup_less b f"
    by (auto simp: score_best_def list_all_iff)
  then have "\<forall>f\<in>set files. f \<noteq> b \<longrightarrow>
      dup_score f < dup_score b \<or> (dup_score f = dup_score b \<and> Path b < Path f)"
    by (auto simp: dup_less_def Let_def split: if_splits)
  with b(1) \<open>b \<in> set files\<close> show ?thesis by blast
qed

theorem chooseBestDuplicate_max_score_witness:
  "distinct (map Path [dup_recovered_2k, dup_plain_1k])
   \<and> 1 < length [dup_recovered_2k, dup_plain_1k]
   \<and> (\<exists>best. chooseBestDuplicate [dup_recovered_2k, dup_plain_1k] = Inr best
         \<and> best \<in> set [dup_recovered_2k, dup_plain_1k]
         \<and> (\<forall>f\<in>set [dup_recovered_2k, dup_plain_1k]. f \<noteq> best \<longrightarrow>
              dup_score f < dup_score best \<or>
              (dup_score f = dup_score best \<and> Path best < Path f)))"
proof -
  have d: "distinct (map Path [dup_recovered_2k, dup_plain_1k])"
    by (simp add: dup_recovered_2k_def dup_plain_1k_def zero_MediaFile_def)
  have l: "1 < length [dup_recovered_2k, dup_plain_1k]" by simp
  from chooseBestDuplicate_max_score [OF d l] d l show ?thesis by blast
qed

text \<open>
  Claim C6. Duplicate resolution is deterministic: for records with pairwise distinct
  paths, \<open>chooseBestDuplicate\<close> returns the same Best record for every permutation of the
  input list; no record has a larger score than Best, and among the records with the same
  score Best has the lexicographically smallest path. The result does not depend on how
  \<open>sort.Slice\<close> sorts: every outcome within its contract, on every permutation of the
  input, has Best as its first element.
\<close>

theorem chooseBestDuplicate_deterministic:
  assumes "distinct (map Path xs)" and "xs \<noteq> []" and "mset ys = mset xs"
  shows "chooseBestDuplicate ys = chooseBestDuplicate xs
         \<and> (\<exists>best. chooseBestDuplicate xs = Inr best \<and>
               (\<forall>f\<in>set xs. dup_score f \<le> dup_score best \<and>
                  (dup_score f = dup_score best \<longrightarrow> Path best \<le> Path f)) \<and>
               (\<forall>zs. sort_contract dup_less ys zs \<longrightarrow> (\<exists>rest. zs = best # rest)))"
proof -
  from chooseBestDuplicate_score_best [OF assms(1,2)]
  obtain b where b: "chooseBestDuplicate xs = Inr b" "score_best xs b" by blast
  from assms have dy: "distinct (map Path ys)"
    by (metis distinct_map mset_eq_setD mset_map mset_eq_imp_distinct_iff)
  from assms have ny: "ys \<noteq> []" by auto
  from chooseBestDuplicate_score_best [OF dy ny]
  obtain c where c: "chooseBestDuplicate ys = Inr c" "score_best ys c" by blast
  from assms(3) b(2) have yb: "score_best ys b" by (rule score_best_mset)
  with c(2) have "c = b" by (rule score_best_unique)
  moreover have "\<forall>f\<in>set xs. dup_score f \<le> dup_score b \<and>
                  (dup_score f = dup_score b \<longrightarrow> Path b \<le> Path f)"
    using b(2) by (auto simp: score_best_def list_all_iff dup_less_def Let_def split: if_splits)
  moreover have "\<forall>zs. sort_contract dup_less ys zs \<longrightarrow> (\<exists>rest. zs = b # rest)"
  proof (intro allI impI)
    fix zs assume "sort_contract dup_less ys zs"
    from sort_contract_head [OF this dy ny]
    obtain b' rest where z: "zs = b' # rest" "score_best ys b'" by blast
    from z(2) yb have "b' = b" by (rule score_best_unique)
    with z(1) show "\<exists>rest. zs = b # rest" by simp
  qed
  ultimately show ?thesis using b(1) c(1) by auto
qed

theorem chooseBestDuplicate_deterministic_witness:
  "distinct (map Path [dup_unnamed, dup_recovered_organized])
   \<and> [dup_unnamed, dup_recovered_organized] \<noteq> []
   \<and> mset [dup_recovered_organized, dup_unnamed] = mset [dup_unnamed, dup_recovered_organized]
   \<and> chooseBestDuplicate [dup_recovered_organized, dup_unnamed]
       = chooseBestDuplicate [dup_unnamed, dup_recovered_organized]"
proof -
  have d: "distinct (map Path [dup_unnamed, dup_recovered_organized])"
    by (simp add: dup_unnamed_def dup_recovered_organized_def zero_MediaFile_def)
  have n: "[dup_unnamed, dup_recovered_organized] \<noteq> []" by simp
  have m: "mset [dup_recovered_organized, dup_unnamed] = mset [dup_unnamed, dup_recovered_organized]"
    by simp
  from chooseBestDuplicate_deterministic [OF d n m] d n m show ?thesis by blast
qed

section \<open>Cache: properties\<close>

lemma tx_delete_all_no_fault:
  "tx_delete_all None i paths tbl = Some (fold AList.delete paths tbl)"
  by (induction paths arbitrary: i tbl) auto

lemma fold_delete_filter:
  "fold AList.delete paths tbl = filter (\<lambda>(path, r). path \<notin> set paths) tbl"
proof (induction paths arbitrary: tbl)
  case Nil
  then show ?case by simp
next
  case (Cons p ps)
  have "filter (\<lambda>(path, r). path \<notin> set ps) (AList.delete p tbl)
        = filter (\<lambda>(path, r). path \<notin> set (p # ps)) tbl"
    by (induction tbl) (auto simp: AList.delete_eq)
  with Cons show ?case by simp
qed

lemma toDelete_filter:
  "filter (\<lambda>(path, r). path \<notin> set (filter (\<lambda>path. path \<notin> validPaths) (map fst tbl))) tbl
   = filter (\<lambda>(path, r). path \<in> validPaths) tbl"
  by (rule filter_cong) (auto simp: rev_image_eqI)

lemma length_toDelete:
  "length (filter (\<lambda>path. path \<notin> validPaths) (map fst tbl))
   = length (filter (\<lambda>(path, r). path \<notin> validPaths) tbl)"
  by (induction tbl) auto

lemma tx_delete_all_fault:
  "tx_delete_all fault i paths tbl = None \<or> tx_delete_all fault i paths tbl = tx_delete_all None i paths tbl"
  by (induction paths arbitrary: i tbl) auto

lemma filter_all_valid:
  "filter (\<lambda>path. path \<notin> validPaths) (map fst tbl) = [] \<Longrightarrow>
   filter (\<lambda>(path, r). path \<in> validPaths) tbl = tbl"
  by (induction tbl) (auto split: if_splits)

lemma PruneDeleted_no_fault:
  "PruneDeleted None c validPaths =
     (c\<lparr>db := filter (\<lambda>(path, r). path \<in> validPaths) (db c)\<rparr>,
      Inr (int (length (filter (\<lambda>(path, r). path \<notin> validPaths) (db c)))))"
proof (cases "filter (\<lambda>path. path \<notin> validPaths) (map fst (db c)) = []")
  case True
  then have "filter (\<lambda>(path, r). path \<in> validPaths) (db c) = db c"
    by (rule filter_all_valid)
  moreover from True have "length (filter (\<lambda>(path, r). path \<notin> validPaths) (db c)) = 0"
    by (simp add: length_toDelete [symmetric])
  ultimately show ?thesis using True by (simp add: PruneDeleted_def)
next
  case False
  define toDelete where "toDelete = filter (\<lambda>path. path \<notin> validPaths) (map fst (db c))"
  have 1: "tx_delete_all None 0 toDelete (db c)
           = Some (filter (\<lambda>(path, r). path \<in> validPaths) (db c))"
    unfolding toDelete_def tx_delete_all_no_fault fold_delete_filter toDelete_filter ..
  have 2: "length toDelete = length (filter (\<lambda>(path, r). path \<notin> validPaths) (db c))"
    unfolding toDelete_def by (rule length_toDelete)
  from False have 3: "toDelete \<noteq> []" unfolding toDelete_def .
  from 2 3 have 4: "filter (\<lambda>(path, r). path \<notin> validPaths) (db c) \<noteq> []"
    by (metis length_0_conv)
  show ?thesis
    unfolding PruneDeleted_def Let_def toDelete_def [symmetric]
    using 1 2 3 4 by simp
qed

lemma PruneDeleted_all_or_nothing:
  "PruneDeleted fault c validPaths = PruneDeleted None c validPaths
   \<or> (\<exists>e. PruneDeleted fault c validPaths = (c, Inl e))"
  using tx_delete_all_fault [of fault 0 "filter (\<lambda>path. path \<notin> validPaths) (map fst (db c))" "db c"]
  by (auto simp: PruneDeleted_def Let_def split: option.splits)

text \<open>
  Claim C5. For every \<open>validPaths\<close>, \<open>PruneDeleted\<close> leaves exactly the rows whose path
  is in \<open>validPaths\<close> and returns the number of rows whose path is not, that is, of the
  rows removed; the deletions are one transaction: when a statement fails, an error is
  returned and the table is as before.
\<close>

theorem PruneDeleted_removes_absent:
  "PruneDeleted None c validPaths =
     (c\<lparr>db := filter (\<lambda>(path, r). path \<in> validPaths) (db c)\<rparr>,
      Inr (int (length (filter (\<lambda>(path, r). path \<notin> validPaths) (db c)))))
   \<and> (\<forall>fault. PruneDeleted fault c validPaths = PruneDeleted None c validPaths
         \<or> (\<exists>e. PruneDeleted fault c validPaths = (c, Inl e)))"
  using PruneDeleted_no_fault PruneDeleted_all_or_nothing by blast

text \<open>
  The case of half the rows: of the two rows of \<open>cache_two_rows\<close>, one path is valid;
  the other row is removed and the count is 1.
\<close>

lemma PruneDeleted_half_example:
  "map fst (db cache_two_rows) = [''/src/a.jpg'', ''/src/b.jpg'']
   \<and> PruneDeleted None cache_two_rows {''/src/a.jpg''} = (cache_one_row, Inr 1)"
  by code_simp

lemma Get_writeToDatabase:
  "Get (writeToDatabase c mf modTime now) (Path mf) sz modTime' =
     (if sz = Size mf \<and> Unix modTime' = Unix modTime
      then Some \<lparr>cf_Path = Path mf, cf_Size = Size mf, cf_ModTime = Unix modTime,
                 cf_Hash = Hash mf,
                 cf_DateTaken = (case DateTaken mf of None \<Rightarrow> None
                                 | Some t \<Rightarrow> Some (Time (Unix t) 0)),
                 cf_CameraMake = CameraMake mf, cf_CameraModel = CameraModel mf,
                 cf_Artist = Artist mf, cf_Album = Album mf, cf_Title = Title mf,
                 cf_Width = Width mf, cf_Height = Height mf, cf_ProcessedAt = now\<rparr>
      else None)"
  by (auto simp: Get_def writeToDatabase_def Let_def update_conv' split: option.splits)

lemma writer_drain_append:
  "writer_drain h clock n (reqs @ [(mf, modTime)]) c =
     writeToDatabase (writer_drain h clock n reqs c) (h mf) modTime (clock (n + length reqs))"
  by (induction reqs arbitrary: n c) auto

text \<open>
  The round trip as stated fails on \<open>photo_record\<close>: a \<open>Get\<close> with a modification time
  that differs within the same second finds the entry, and the capture date comes back
  without its sub-second part.
\<close>

theorem cache_round_trip_counterexample:
  "Time 1700000000 999 \<noteq> Time 1700000000 0
   \<and> Get (writerLoop example_heap (\<lambda>n. 1700000100) (fst (Put cache_empty 0 (Time 1700000000 0))))
        ''/src/a.jpg'' 2048 (Time 1700000000 999) \<noteq> None
   \<and> map_option cf_DateTaken
        (Get (writerLoop example_heap (\<lambda>n. 1700000100) (fst (Put cache_empty 0 (Time 1700000000 0))))
           ''/src/a.jpg'' 2048 (Time 1700000000 0))
       \<noteq> Some (DateTaken (example_heap 0))"
  by code_simp

text \<open>
  Claim C3, as amended. When \<open>Put\<close> has accepted a record and the writer has applied
  the queue, a \<open>Get\<close> with the record's path finds the entry exactly if the size is the
  written size and the modification time lies in the same Unix second as the written
  one; the entry then carries the record's hash, camera make and model, artist, album,
  title, width and height, and the capture date cut to whole seconds. With another size,
  or a modification time in another second, the result is not found.
\<close>

theorem cache_round_trip:
  assumes "Put c mf modTime = (c', None)"
  shows "Get (writerLoop h clock c') (Path (h mf)) sz modTime' =
     (if sz = Size (h mf) \<and> Unix modTime' = Unix modTime
      then Some \<lparr>cf_Path = Path (h mf), cf_Size = Size (h mf), cf_ModTime = Unix modTime,
                 cf_Hash = Hash (h mf),
                 cf_DateTaken = (case DateTaken (h mf) of None \<Rightarrow> None
                                 | Some t \<Rightarrow> Some (Time (Unix t) 0)),
                 cf_CameraMake = CameraMake (h mf), cf_CameraModel = CameraModel (h mf),
                 cf_Artist = Artist (h mf), cf_Album = Album (h mf), cf_Title = Title (h mf),
                 cf_Width = Width (h mf), cf_Height = Height (h mf),
                 cf_ProcessedAt = clock (length (writeChan c))\<rparr>
      else None)"
proof -
  from assms have q: "writeChan c' = writeChan c @ [(mf, modTime)]"
    by (auto simp: Put_def split: if_splits)
  show ?thesis
    unfolding writerLoop_def q writer_drain_append Get_writeToDatabase by simp
qed

theorem cache_round_trip_witness:
  "Put cache_empty 0 (Time 1700000000 0) = (cache_empty\<lparr>writeChan := [(0, Time 1700000000 0)]\<rparr>, None)
   \<and> map_option cf_Hash
        (Get (writerLoop example_heap (\<lambda>n. 1700000100) (cache_empty\<lparr>writeChan := [(0, Time 1700000000 0)]\<rparr>))
           ''/src/a.jpg'' 2048 (Time 1700000000 0)) = Some ''d1''
   \<and> Get (writerLoop example_heap (\<lambda>n. 1700000100) (cache_empty\<lparr>writeChan := [(0, Time 1700000000 0)]\<rparr>))
           ''/src/a.jpg'' 2049 (Time 1700000000 0) = None"
proof -
  have p: "Put cache_empty 0 (Time 1700000000 0) = (cache_empty\<lparr>writeChan := [(0, Time 1700000000 0)]\<rparr>, None)"
    by (simp add: Put_def cache_empty_def)
  have e: "Path (example_heap 0) = ''/src/a.jpg''" "Size (example_heap 0) = 2048" "Hash (example_heap 0) = ''d1''"
    by (simp_all add: example_heap_def photo_record_def zero_MediaFile_def)
  show ?thesis
    using p cache_round_trip [OF p, of example_heap "\<lambda>n. 1700000100" 2048 "Time 1700000000 0"]
      cache_round_trip [OF p, of example_heap "\<lambda>n. 1700000100" 2049 "Time 1700000000 0"]
    by (simp add: e)
qed

lemma Put_db: "db (fst (Put c mf modTime)) = db c"
  by (simp add: Put_def)

lemma UpdatePath_db: "db (UpdatePath c oldPath mf modTime) = AList.delete oldPath (db c)"
  by (simp add: UpdatePath_def Put_def)

text \<open>
  Claim C1. Every durable write goes through the single writer that drains the queue.
  \<open>Put\<close> only queues (\<open>Put_db\<close>), but \<open>UpdatePath\<close> and \<open>PruneDeleted\<close> change the
  table themselves: on \<open>cache_one_row\<close> the row is gone after \<open>UpdatePath\<close> while its
  request is still waiting in the queue, and after \<open>PruneDeleted\<close> with nothing queued
  at all.
\<close>

theorem direct_writes_bypass_writer:
  "db cache_one_row \<noteq> []
   \<and> db (UpdatePath cache_one_row ''/src/a.jpg'' 0 (Time 1700000000 0)) = []
   \<and> writeChan (UpdatePath cache_one_row ''/src/a.jpg'' 0 (Time 1700000000 0)) = [(0, Time 1700000000 0)]
   \<and> db (fst (PruneDeleted None cache_one_row {})) = []
   \<and> writeChan (fst (PruneDeleted None cache_one_row {})) = []"
  by code_simp

section \<open>The prune pass: properties\<close>

text \<open>
  A capped run with the prune option set: the scan stops after one file, \<open>PruneDeleted\<close>
  is called, and the row of the second file, which is on disk, is removed.
\<close>

theorem capped_run_prunes_counterexample:
  "0 < FileLimit (config_default\<lparr>FileLimit := 1, PruneCache := True\<rparr>)
   \<and> map fst (db cache_two_rows) = [''/src/a.jpg'', ''/src/b.jpg'']
   \<and> (case runCLI_scan_prune ascii_ToLower None (config_default\<lparr>FileLimit := 1, PruneCache := True\<rparr>)
               tree_two_photos (Some cache_two_rows) of
         (files, cache', calls) \<Rightarrow>
           map Path files = [''/src/a.jpg'']
           \<and> length calls = 1
           \<and> map_option (\<lambda>c. map fst (db c)) cache' = Some [''/src/a.jpg''])"
  by code_simp

text \<open>
  Claim C4, as amended. In a run with a positive file limit, \<open>PruneDeleted\<close> is called
  exactly if the cache is open and pruning was requested with the prune option; without
  the option a capped run never calls it.
\<close>

theorem capped_run_prunes_only_on_request:
  assumes "0 < FileLimit config"
  shows "snd (snd (runCLI_scan_prune toLower fault config root cache)) \<noteq> []
         \<longleftrightarrow> cache \<noteq> None \<and> PruneCache config"
  using assms
  by (auto simp: runCLI_scan_prune_def Let_def split: option.splits prod.splits)

theorem capped_run_prunes_only_on_request_witness:
  "0 < FileLimit (config_default\<lparr>FileLimit := 1\<rparr>)
   \<and> snd (snd (runCLI_scan_prune ascii_ToLower None (config_default\<lparr>FileLimit := 1\<rparr>)
                  tree_two_photos (Some cache_two_rows))) = []"
proof -
  have l: "0 < FileLimit (config_default\<lparr>FileLimit := 1\<rparr>)" by simp
  have p: "\<not> PruneCache (config_default\<lparr>FileLimit := 1\<rparr>)" by (simp add: config_default_def)
  from capped_run_prunes_only_on_request [OF l, of ascii_ToLower None tree_two_photos "Some cache_two_rows"] l p
  show ?thesis by simp
qed

section \<open>Scanner: properties\<close>

lemma walkFn_file_ok:
  "scan_ok toLower limit st \<Longrightarrow> scan_ok toLower limit (snd (walkFn_file toLower limit path sz st))"
  by (auto simp: scan_ok_def walkFn_file_def Let_def zero_MediaFile_def)

lemma walk_ok:
  "scan_ok toLower limit st \<Longrightarrow> scan_ok toLower limit (snd (walk toLower limit node st))"
  "scan_ok toLower limit st \<Longrightarrow> scan_ok toLower limit (snd (walk_entries toLower limit nodes st))"
proof (induction toLower limit node st and toLower limit nodes st rule: walk_walk_entries.induct)
  case (1 toLower limit path sz st)
  then show ?case by (simp add: walkFn_file_ok)
next
  case (2 toLower limit path st)
  then show ?case by simp
next
  case (3 toLower limit path entries st)
  then show ?case by (auto simp: walkFn_dir_def split: if_splits)
next
  case (4 toLower limit st)
  then show ?case by simp
next
  case (5 toLower limit e es st)
  obtain r st' where w: "walk toLower limit e st = (r, st')" by (cases "walk toLower limit e st")
  with 5 have ok: "scan_ok toLower limit st'" by simp
  show ?case
  proof (cases r)
    case ret_nil
    with 5 w ok show ?thesis by simp
  next
    case ret_SkipDir
    with 5 w ok show ?thesis by (cases "is_DirNode e") simp_all
  qed
qed

lemma scan_init_ok: "scan_ok toLower limit scan_init"
  by (simp add: scan_ok_def scan_init_def)

lemma ScanMediaFiles_ok: "scan_ok toLower limit (snd (walk toLower limit root scan_init))"
  by (rule walk_ok) (rule scan_init_ok)

lemma detect_known:
  "detectMediaType toLower path \<noteq> TypeUnknown \<longleftrightarrow>
     toLower (filepath_Ext path) \<in> set (photoExtensions @ videoExtensions @ musicExtensions)"
  by (auto simp: detectMediaType_def Let_def)

lemma excluded_dir_skipped:
  "shouldExclude path \<Longrightarrow> walk toLower limit (DirNode path entries) st = (ret_SkipDir, st)"
  by (simp add: walkFn_dir_def)

text \<open>
  Claim C7. Every file returned by the scanner has a type other than \<open>TypeUnknown\<close>,
  the one detected from its path, so its lower-cased extension is in the photo, video or
  music set, and its path contains no exclusion pattern; the walk of a directory whose
  path is excluded returns at once, whatever the directory holds, and the loop over its
  parent goes on with the next entry; with a positive limit at most that many files are
  returned.
\<close>

theorem ScanMediaFiles_sound:
  "(\<forall>f\<in>set (ScanMediaFiles toLower root limit).
       Type f \<noteq> TypeUnknown
       \<and> Type f = detectMediaType toLower (Path f)
       \<and> toLower (filepath_Ext (Path f)) \<in> set (photoExtensions @ videoExtensions @ musicExtensions)
       \<and> (\<forall>pattern\<in>set excludePatterns. \<not> Contains (Path f) pattern))
   \<and> (shouldExclude path \<longrightarrow>
         walk toLower limit (DirNode path entries) st = (ret_SkipDir, st)
         \<and> walk_entries toLower limit (DirNode path entries # es) st
             = walk_entries toLower limit es st)
   \<and> (0 < limit \<longrightarrow> int (length (ScanMediaFiles toLower root limit)) \<le> limit)"
proof -
  have ok: "scan_ok toLower limit (snd (walk toLower limit root scan_init))"
    by (rule ScanMediaFiles_ok)
  have a: "\<forall>f\<in>set (ScanMediaFiles toLower root limit).
       Type f \<noteq> TypeUnknown
       \<and> Type f = detectMediaType toLower (Path f)
       \<and> toLower (filepath_Ext (Path f)) \<in> set (photoExtensions @ videoExtensions @ musicExtensions)
       \<and> (\<forall>pattern\<in>set excludePatterns. \<not> Contains (Path f) pattern)"
  proof
    fix f assume "f \<in> set (ScanMediaFiles toLower root limit)"
    with ok have t: "Type f = detectMediaType toLower (Path f)" "Type f \<noteq> TypeUnknown"
      and e: "\<not> shouldExclude (Path f)"
      by (auto simp: scan_ok_def ScanMediaFiles_def)
    from t have "toLower (filepath_Ext (Path f)) \<in> set (photoExtensions @ videoExtensions @ musicExtensions)"
      using detect_known [of toLower "Path f"] by simp
    moreover from e have "\<forall>pattern\<in>set excludePatterns. \<not> Contains (Path f) pattern"
      by (simp add: shouldExclude_def list_ex_iff)
    ultimately show "Type f \<noteq> TypeUnknown
       \<and> Type f = detectMediaType toLower (Path f)
       \<and> toLower (filepath_Ext (Path f)) \<in> set (photoExtensions @ videoExtensions @ musicExtensions)
       \<and> (\<forall>pattern\<in>set excludePatterns. \<not> Contains (Path f) pattern)"
      using t by simp
  qed
  have b: "shouldExclude path \<longrightarrow>
         walk toLower limit (DirNode path entries) st = (ret_SkipDir, st)
         \<and> walk_entries toLower limit (DirNode path entries # es) st
             = walk_entries toLower limit es st"
  proof (intro impI conjI)
    assume e: "shouldExclude path"
    then show "walk toLower limit (DirNode path entries) st = (ret_SkipDir, st)"
      by (rule excluded_dir_skipped)
    from e show "walk_entries toLower limit (DirNode path entries # es) st
             = walk_entries toLower limit es st"
      by (simp add: walkFn_dir_def)
  qed
  have c: "0 < limit \<longrightarrow> int (length (ScanMediaFiles toLower root limit)) \<le> limit"
    using ok by (auto simp: scan_ok_def ScanMediaFiles_def)
  from a b c show ?thesis by blast
qed

lemma tree_scan_capped:
  "map Path (ScanMediaFiles ascii_ToLower tree_scan 2) = [''/src/a.JPG'', ''/src/b.mp3'']"
  by code_simp

lemma tree_scan_excluded: "shouldExclude ''/src/.Trash/old''"
  by code_simp

theorem ScanMediaFiles_sound_witness:
  "map Path (ScanMediaFiles ascii_ToLower tree_scan 2) = [''/src/a.JPG'', ''/src/b.mp3'']
   \<and> list_all (\<lambda>f. Type f \<noteq> TypeUnknown
                      \<and> list_all (\<lambda>pattern. \<not> Contains (Path f) pattern) excludePatterns)
        (ScanMediaFiles ascii_ToLower tree_scan 2)
   \<and> shouldExclude ''/src/.Trash/old''
   \<and> walk ascii_ToLower 2 (DirNode ''/src/.Trash/old'' [FileNode ''/src/.Trash/old/x.jpg'' 5]) scan_init
        = (ret_SkipDir, scan_init)
   \<and> (0::int) < 2
   \<and> int (length (ScanMediaFiles ascii_ToLower tree_scan 2)) \<le> 2"
proof -
  note T = ScanMediaFiles_sound [of ascii_ToLower tree_scan 2 "''/src/.Trash/old''"
      "[FileNode ''/src/.Trash/old/x.jpg'' 5]" scan_init "[]"]
  from T have "\<forall>f\<in>set (ScanMediaFiles ascii_ToLower tree_scan 2).
         Type f \<noteq> TypeUnknown \<and> (\<forall>pattern\<in>set excludePatterns. \<not> Contains (Path f) pattern)"
    by blast
  then have a: "list_all (\<lambda>f. Type f \<noteq> TypeUnknown
                      \<and> list_all (\<lambda>pattern. \<not> Contains (Path f) pattern) excludePatterns)
        (ScanMediaFiles ascii_ToLower tree_scan 2)"
    by (simp add: list_all_iff)
  from T tree_scan_excluded
  have b: "walk ascii_ToLower 2 (DirNode ''/src/.Trash/old'' [FileNode ''/src/.Trash/old/x.jpg'' 5]) scan_init
        = (ret_SkipDir, scan_init)"
    by blast
  have d: "(0::int) < 2" by simp
  with T have c: "int (length (ScanMediaFiles ascii_ToLower tree_scan 2)) \<le> 2"
    by blast
  from a b c d tree_scan_capped tree_scan_excluded show ?thesis by blast
qed

section \<open>Music albums: properties\<close>

lemma prefix_sep_append:
  "prefix '' - '' ((x # a) @ '' - '' @ b) \<longleftrightarrow> prefix '' - '' (x # a) \<or> x # a = '' -''"
proof (cases a)
  case Nil
  then show ?thesis by auto
next
  case (Cons y a')
  then show ?thesis by (cases a') auto
qed

lemma cut_first_Cons_prefix:
  "prefix sep (x # s) \<Longrightarrow> cut_first sep (x # s) = Some ([], drop (length sep) (x # s))"
  by simp

lemma cut_first_Cons_no_prefix:
  "\<not> prefix sep (x # s) \<Longrightarrow> cut_first sep s = Some (p, q)
   \<Longrightarrow> cut_first sep (x # s) = Some (x # p, q)"
  by simp

lemma cut_first_Some: "\<exists>p q. cut_first sep (a @ sep @ b) = Some (p, q)"
proof (induction a)
  case Nil
  show ?case
  proof (cases "sep @ b")
    case Nil
    then show ?thesis by simp
  next
    case (Cons c cs)
    have "prefix sep (sep @ b)" by simp
    with Cons have "prefix sep (c # cs)" by simp
    then have "cut_first sep (c # cs) = Some ([], drop (length sep) (c # cs))"
      by (rule cut_first_Cons_prefix)
    with Cons show ?thesis by simp
  qed
next
  case (Cons x a)
  then obtain p q where pq: "cut_first sep (a @ sep @ b) = Some (p, q)" by blast
  show ?case
  proof (cases "prefix sep (x # a @ sep @ b)")
    case True
    then have "cut_first sep (x # a @ sep @ b) = Some ([], drop (length sep) (x # a @ sep @ b))"
      by (rule cut_first_Cons_prefix)
    then show ?thesis by simp
  next
    case False
    from False pq have "cut_first sep (x # a @ sep @ b) = Some (x # p, q)"
      by (rule cut_first_Cons_no_prefix)
    then show ?thesis by simp
  qed
qed

lemma cut_first_exact:
  "cut_first '' - '' (a @ '' - '' @ b) = Some (a, b)
   \<longleftrightarrow> \<not> sublist '' - '' a \<and> \<not> suffix '' -'' a"
proof (induction a)
  case Nil
  then show ?case by simp
next
  case (Cons x a)
  obtain p q where pq: "cut_first '' - '' (a @ '' - '' @ b) = Some (p, q)"
    using cut_first_Some by blast
  have pre: "prefix '' - '' (x # a @ '' - '' @ b) \<longleftrightarrow> prefix '' - '' (x # a) \<or> x # a = '' -''"
    using prefix_sep_append [of x a b] by simp
  have sub: "sublist '' - '' (x # a) \<longleftrightarrow> prefix '' - '' (x # a) \<or> sublist '' - '' a"
    by (rule sublist_Cons_right)
  have suf: "suffix '' -'' (x # a) \<longleftrightarrow> x # a = '' -'' \<or> suffix '' -'' a"
    by (auto simp: suffix_Cons)
  have app: "(x # a) @ '' - '' @ b = x # a @ '' - '' @ b" by simp
  show ?case
  proof (cases "prefix '' - '' (x # a @ '' - '' @ b)")
    case True
    then have "cut_first '' - '' (x # a @ '' - '' @ b)
               = Some ([], drop (length '' - '') (x # a @ '' - '' @ b))"
      by (rule cut_first_Cons_prefix)
    then have "cut_first '' - '' ((x # a) @ '' - '' @ b) \<noteq> Some (x # a, b)"
      unfolding app by simp
    moreover from True pre sub suf have "\<not> (\<not> sublist '' - '' (x # a) \<and> \<not> suffix '' -'' (x # a))"
      by blast
    ultimately show ?thesis by blast
  next
    case False
    from False pq have "cut_first '' - '' (x # a @ '' - '' @ b) = Some (x # p, q)"
      by (rule cut_first_Cons_no_prefix)
    then have "cut_first '' - '' ((x # a) @ '' - '' @ b) = Some (x # a, b)
               \<longleftrightarrow> cut_first '' - '' (a @ '' - '' @ b) = Some (a, b)"
      unfolding app using pq by simp
    with Cons False pre sub suf show ?thesis by blast
  qed
qed

lemma organizeMusicFiles_loop_result:
  assumes "\<forall>name\<in>set names. \<exists>p q. cut_first '' - '' name = Some (p, q)"
  shows "organizeMusicFiles_loop config files names albums
         = Inr (albums @ map (music_plan config files) names)"
  using assms
proof (induction names arbitrary: albums)
  case Nil
  then show ?case by simp
next
  case (Cons name names)
  then obtain p q where pq: "cut_first '' - '' name = Some (p, q)" by auto
  from Cons have "organizeMusicFiles_loop config files names (albums @ [music_plan config files name])
     = Inr ((albums @ [music_plan config files name]) @ map (music_plan config files) names)"
    by simp
  with pq show ?case
    by (simp add: strings_SplitN2_def music_plan_def)
qed

lemma byAlbum_keys_split:
  assumes "name \<in> set (byAlbum_keys files)"
  shows "\<exists>p q. cut_first '' - '' name = Some (p, q)"
proof -
  from assms obtain f where "name = music_key f" by (auto simp: byAlbum_keys_def)
  then show ?thesis using cut_first_Some [of "'' - ''" "music_artist f" "music_album f"]
    by (simp add: music_key_def)
qed

lemma organizeMusicFiles_result:
  assumes "range_order (byAlbum_keys files) names"
  shows "organizeMusicFiles config names files = Inr (map (music_plan config files) names)"
proof -
  from assms have "\<forall>name\<in>set names. \<exists>p q. cut_first '' - '' name = Some (p, q)"
    using byAlbum_keys_split by (simp add: range_order_def)
  then show ?thesis
    by (simp add: organizeMusicFiles_def organizeMusicFiles_loop_result)
qed

text \<open>
  An artist without \<open>" - "\<close> whose destination is still rebuilt wrongly: the artist
  \<open>"X -"\<close> and the separator together hold an earlier \<open>" - "\<close>, so the split yields
  the artist \<open>"X"\<close> and the album \<open>"- Y"\<close>.
\<close>

theorem music_destination_counterexample:
  "\<not> Contains (Artist music_dash) '' - ''
   \<and> organizeMusicFiles config_default (byAlbum_keys [music_dash]) [music_dash]
       = Inr [\<lparr>Name = ''X - - Y'', Destination = ''/src/MediaLibrary/Music/X/- Y'', Files = [music_dash],
                SourceDirs = [''various''], Date = None, Album_Type = TypeMusic\<rparr>]
   \<and> filepath_Join [LibraryBase config_default, ''Music'', Artist music_dash, Album music_dash]
       = ''/src/MediaLibrary/Music/X -/Y''"
  by code_simp

text \<open>
  Claim C10, as amended. For every music record, \<open>organizeMusicFiles\<close> returns an
  album named by the key \<open>"Artist - Album"\<close> (with \<open>Unknown Artist\<close> and
  \<open>Unknown Album\<close> for empty fields) that holds the record, and its destination is
  \<open>Music/artist/album\<close> for the two parts of the key split at its first \<open>" - "\<close>. These
  parts are the record's artist and album exactly if the artist neither contains
  \<open>" - "\<close> nor ends in \<open>" -"\<close>; for every other record they differ.
\<close>

theorem music_destination:
  assumes "mf \<in> set files" and "Type mf = TypeMusic"
    and "range_order (byAlbum_keys files) names"
  shows "\<exists>albums a artist albumName.
           organizeMusicFiles config names files = Inr albums
           \<and> a \<in> set albums \<and> Name a = music_key mf \<and> mf \<in> set (Files a)
           \<and> strings_SplitN2 (music_key mf) '' - '' = [artist, albumName]
           \<and> Destination a = filepath_Join [LibraryBase config, ''Music'', artist, albumName]
           \<and> (artist = music_artist mf \<and> albumName = music_album mf
                \<longleftrightarrow> \<not> Contains (music_artist mf) '' - '' \<and> \<not> suffix '' -'' (music_artist mf))"
proof -
  let ?k = "music_key mf"
  from assms have k: "?k \<in> set names"
    by (auto simp: range_order_def byAlbum_keys_def)
  obtain p q where pq: "cut_first '' - '' ?k = Some (p, q)"
    using cut_first_Some [of "'' - ''" "music_artist mf" "music_album mf"]
    by (auto simp: music_key_def)
  have r: "organizeMusicFiles config names files = Inr (map (music_plan config files) names)"
    using assms(3) by (rule organizeMusicFiles_result)
  have a: "music_plan config files ?k \<in> set (map (music_plan config files) names)"
    using k by simp
  have f: "mf \<in> set (Files (music_plan config files ?k))"
    using assms(1,2) by (simp add: music_plan_def byAlbum_def)
  have d: "Destination (music_plan config files ?k)
           = filepath_Join [LibraryBase config, ''Music'', p, q]"
    using pq by (simp add: music_plan_def)
  have s: "strings_SplitN2 ?k '' - '' = [p, q]"
    using pq by (simp add: strings_SplitN2_def)
  have e: "(p = music_artist mf \<and> q = music_album mf)
           \<longleftrightarrow> \<not> Contains (music_artist mf) '' - '' \<and> \<not> suffix '' -'' (music_artist mf)"
    using cut_first_exact [of "music_artist mf" "music_album mf"] pq
    by (auto simp: music_key_def Contains_def)
  have n: "Name (music_plan config files ?k) = ?k" by (simp add: music_plan_def)
  from r a f d s e n show ?thesis by blast
qed

theorem music_destination_witness:
  "music_dash \<in> set [music_dash] \<and> Type music_dash = TypeMusic
   \<and> range_order (byAlbum_keys [music_dash]) [''X - - Y'']
   \<and> (\<exists>albums a artist albumName.
           organizeMusicFiles config_default [''X - - Y''] [music_dash] = Inr albums
           \<and> a \<in> set albums \<and> Name a = music_key music_dash \<and> music_dash \<in> set (Files a)
           \<and> strings_SplitN2 (music_key music_dash) '' - '' = [artist, albumName]
           \<and> Destination a = filepath_Join [LibraryBase config_default, ''Music'', artist, albumName]
           \<and> (artist = music_artist music_dash \<and> albumName = music_album music_dash
                \<longleftrightarrow> \<not> Contains (music_artist music_dash) '' - ''
                    \<and> \<not> suffix '' -'' (music_artist music_dash)))"
proof -
  have a: "music_dash \<in> set [music_dash]" by simp
  have b: "Type music_dash = TypeMusic" by (simp add: music_dash_def)
  have c: "range_order (byAlbum_keys [music_dash]) [''X - - Y'']" by code_simp
  from music_destination [OF a b c, of config_default] a b c show ?thesis by blast
qed

section \<open>Album organizer: properties\<close>

lemma suggest_name_cache:
  assumes "suggest_name env config c d fs ym = (n, c')"
  shows "(c' = None \<longleftrightarrow> c = None) \<and> (\<forall>d'. d' \<noteq> d \<longrightarrow> cache_row c' d' = cache_row c d')"
  using assms
  by (auto simp: suggest_name_def Let_def cache_row_def AlbumSuggestionCache_Put_def
      update_conv' split: if_splits option.splits)

lemma suggest_name_cong:
  assumes "c = None \<longleftrightarrow> c0 = None" and "cache_row c d = cache_row c0 d"
  shows "fst (suggest_name env config c d fs ym) = fst (suggest_name env config c0 d fs ym)"
proof -
  have "(case c of None \<Rightarrow> None | Some tbl \<Rightarrow> AlbumSuggestionCache_Get env tbl d (map Path (take 5 fs)))
      = (case c0 of None \<Rightarrow> None | Some tbl \<Rightarrow> AlbumSuggestionCache_Get env tbl d (map Path (take 5 fs)))"
    using assms
    by (auto simp: cache_row_def AlbumSuggestionCache_Get_def split: option.splits)
  then show ?thesis
    by (auto simp: suggest_name_def Let_def split: option.splits)
qed

lemma organize_dir_small:
  "length (byDirectory files d) < 3 \<Longrightarrow> organize_dir env config files d (albums, c) = (albums, c)"
  by (simp add: organize_dir_def Let_def)

lemma organize_dir_big:
  assumes "3 \<le> length (byDirectory files d)"
    and "suggest_name env config c d (byDirectory files d) (dir_yearMonth env files d) = (n, c')"
  shows "\<exists>dest date.
    organize_dir env config files d (albums, c) =
      (if \<exists>a\<in>set albums. Name a = n
       then map (\<lambda>a. if Name a = n
                      then a\<lparr>Files := Files a @ byDirectory files d,
                             SourceDirs := SourceDirs a @ [d]\<rparr>
                      else a) albums
       else albums @ [\<lparr>Name = n, Destination = dest, Files = byDirectory files d,
                        SourceDirs = [d], Date = date,
                        Album_Type = Type (hd (byDirectory files d))\<rparr>],
       c')"
  using assms
  by (simp add: organize_dir_def Let_def dir_yearMonth_def list_ex_iff split: prod.splits)

lemma byDirectory_not_music:
  assumes "3 \<le> length (byDirectory files d)"
  shows "Type (hd (byDirectory files d)) \<noteq> TypeMusic"
proof -
  from assms have "byDirectory files d \<noteq> []" by auto
  then have "hd (byDirectory files d) \<in> set (byDirectory files d)" by (rule hd_in_set)
  then show ?thesis by (simp add: byDirectory_def)
qed

lemma organize_dir_inv:
  assumes inv: "organize_dirs_inv env config files c0 ds acc" and new: "d \<notin> ds"
  shows "organize_dirs_inv env config files c0 (insert d ds) (organize_dir env config files d acc)"
proof -
  obtain albums c where acc: "acc = (albums, c)" by (cases acc)
  from inv acc have
    i1: "c = None \<longleftrightarrow> c0 = None"
    and i2: "\<And>d'. d' \<notin> ds \<Longrightarrow> cache_row c d' = cache_row c0 d'"
    and i3: "distinct (map Name albums)"
    and i4: "\<And>a. a \<in> set albums \<Longrightarrow>
             Album_Type a \<noteq> TypeMusic
             \<and> set (SourceDirs a) \<subseteq> {d \<in> ds. 3 \<le> length (byDirectory files d)}
             \<and> (\<forall>d\<in>set (SourceDirs a). computed_name env config c0 files d = Name a)
             \<and> Files a = concat (map (byDirectory files) (SourceDirs a))"
    and i5: "\<And>d'. d' \<in> ds \<Longrightarrow> 3 \<le> length (byDirectory files d')
             \<Longrightarrow> \<exists>a\<in>set albums. d' \<in> set (SourceDirs a)"
    by (auto simp: organize_dirs_inv_def)
  show ?thesis
  proof (cases "length (byDirectory files d) < 3")
    case True
    then have r: "organize_dir env config files d acc = (albums, c)"
      by (simp add: acc organize_dir_small)
    show ?thesis
      unfolding r organize_dirs_inv_def prod.case
    proof (intro conjI)
      show "c = None \<longleftrightarrow> c0 = None" by (rule i1)
      show "\<forall>d'. d' \<notin> insert d ds \<longrightarrow> cache_row c d' = cache_row c0 d'" using i2 by simp
      show "distinct (map Name albums)" by (rule i3)
      show "\<forall>a\<in>set albums.
             Album_Type a \<noteq> TypeMusic
             \<and> set (SourceDirs a) \<subseteq> {d' \<in> insert d ds. 3 \<le> length (byDirectory files d')}
             \<and> (\<forall>d\<in>set (SourceDirs a). computed_name env config c0 files d = Name a)
             \<and> Files a = concat (map (byDirectory files) (SourceDirs a))"
        using i4 by fastforce
      show "\<forall>d'\<in>insert d ds. 3 \<le> length (byDirectory files d')
             \<longrightarrow> (\<exists>a\<in>set albums. d' \<in> set (SourceDirs a))"
        using i5 True by auto
    qed
  next
    case False
    then have big: "3 \<le> length (byDirectory files d)" by simp
    obtain n c' where sn:
      "suggest_name env config c d (byDirectory files d) (dir_yearMonth env files d) = (n, c')"
      by (cases "suggest_name env config c d (byDirectory files d) (dir_yearMonth env files d)")
    from suggest_name_cache [OF sn]
    have c1: "c' = None \<longleftrightarrow> c = None"
      and c2: "\<And>d'. d' \<noteq> d \<Longrightarrow> cache_row c' d' = cache_row c d'" by auto
    have n: "n = computed_name env config c0 files d"
      using suggest_name_cong [OF i1 i2 [OF new], of env config "byDirectory files d"
          "dir_yearMonth env files d"] sn
      by (simp add: computed_name_def)
    let ?upd = "\<lambda>a. if Name a = n
                      then a\<lparr>Files := Files a @ byDirectory files d,
                             SourceDirs := SourceDirs a @ [d]\<rparr>
                      else a"
    from organize_dir_big [OF big sn, where albums = albums] obtain dest date where
      r: "organize_dir env config files d (albums, c) =
           (if \<exists>a\<in>set albums. Name a = n then map ?upd albums
            else albums @ [\<lparr>Name = n, Destination = dest, Files = byDirectory files d,
                             SourceDirs = [d], Date = date,
                             Album_Type = Type (hd (byDirectory files d))\<rparr>],
            c')"
      by blast
    let ?new = "\<lparr>Name = n, Destination = dest, Files = byDirectory files d,
                 SourceDirs = [d], Date = date,
                 Album_Type = Type (hd (byDirectory files d))\<rparr>"
    let ?albums' = "if \<exists>a\<in>set albums. Name a = n then map ?upd albums else albums @ [?new]"
    have good_upd: "Album_Type (?upd a) \<noteq> TypeMusic
             \<and> set (SourceDirs (?upd a)) \<subseteq> {d' \<in> insert d ds. 3 \<le> length (byDirectory files d')}
             \<and> (\<forall>d'\<in>set (SourceDirs (?upd a)). computed_name env config c0 files d' = Name (?upd a))
             \<and> Files (?upd a) = concat (map (byDirectory files) (SourceDirs (?upd a)))"
      if "a \<in> set albums" for a
      using i4 [OF that] big n by auto
    have good_new: "Album_Type ?new \<noteq> TypeMusic
             \<and> set (SourceDirs ?new) \<subseteq> {d' \<in> insert d ds. 3 \<le> length (byDirectory files d')}
             \<and> (\<forall>d'\<in>set (SourceDirs ?new). computed_name env config c0 files d' = Name ?new)
             \<and> Files ?new = concat (map (byDirectory files) (SourceDirs ?new))"
      using big n byDirectory_not_music [OF big] by simp
    have names_upd: "map Name (map ?upd albums) = map Name albums"
      by (induction albums) auto
    have p3: "distinct (map Name ?albums')"
    proof (cases "\<exists>a\<in>set albums. Name a = n")
      case True
      then have "?albums' = map ?upd albums" by (simp only: if_True)
      moreover have "distinct (map Name (map ?upd albums))"
        unfolding names_upd by (rule i3)
      ultimately show ?thesis by (simp only:)
    next
      case False
      then have "n \<notin> set (map Name albums)" by auto
      with False i3 show ?thesis by simp
    qed
    have p4: "\<forall>a\<in>set ?albums'.
             Album_Type a \<noteq> TypeMusic
             \<and> set (SourceDirs a) \<subseteq> {d' \<in> insert d ds. 3 \<le> length (byDirectory files d')}
             \<and> (\<forall>d\<in>set (SourceDirs a). computed_name env config c0 files d = Name a)
             \<and> Files a = concat (map (byDirectory files) (SourceDirs a))"
    proof (cases "\<exists>a\<in>set albums. Name a = n")
      case True
      show ?thesis
      proof
        fix a assume "a \<in> set ?albums'"
        with True obtain b where b: "b \<in> set albums" "a = ?upd b" by auto
        from good_upd [OF b(1)] b(2) show "Album_Type a \<noteq> TypeMusic
             \<and> set (SourceDirs a) \<subseteq> {d' \<in> insert d ds. 3 \<le> length (byDirectory files d')}
             \<and> (\<forall>d\<in>set (SourceDirs a). computed_name env config c0 files d = Name a)
             \<and> Files a = concat (map (byDirectory files) (SourceDirs a))"
          by simp
      qed
    next
      case False
      show ?thesis
      proof
        fix a assume "a \<in> set ?albums'"
        with False have "a \<in> set albums \<or> a = ?new" by auto
        then show "Album_Type a \<noteq> TypeMusic
             \<and> set (SourceDirs a) \<subseteq> {d' \<in> insert d ds. 3 \<le> length (byDirectory files d')}
             \<and> (\<forall>d\<in>set (SourceDirs a). computed_name env config c0 files d = Name a)
             \<and> Files a = concat (map (byDirectory files) (SourceDirs a))"
        proof
          assume "a \<in> set albums"
          from i4 [OF this] show ?thesis by fastforce
        next
          assume "a = ?new"
          with good_new show ?thesis by simp
        qed
      qed
    qed
    have p5: "\<forall>d'\<in>insert d ds. 3 \<le> length (byDirectory files d')
             \<longrightarrow> (\<exists>a\<in>set ?albums'. d' \<in> set (SourceDirs a))"
    proof (intro ballI impI)
      fix d' assume d': "d' \<in> insert d ds" and b3: "3 \<le> length (byDirectory files d')"
      show "\<exists>a\<in>set ?albums'. d' \<in> set (SourceDirs a)"
      proof (cases "d' = d")
        case True
        show ?thesis
        proof (cases "\<exists>a\<in>set albums. Name a = n")
          case ex: True
          then obtain b where b: "b \<in> set albums" "Name b = n" by blast
          then have "?upd b \<in> set (map ?upd albums)" by (intro imageI [of b "set albums" ?upd, folded set_map])
          moreover from b have "d \<in> set (SourceDirs (?upd b))" by simp
          ultimately show ?thesis using ex True by auto
        next
          case False
          with True show ?thesis by simp
        qed
      next
        case False
        with d' have "d' \<in> ds" by simp
        from i5 [OF this b3] obtain b where b: "b \<in> set albums" "d' \<in> set (SourceDirs b)" by blast
        show ?thesis
        proof (cases "\<exists>a\<in>set albums. Name a = n")
          case True
          from b have "?upd b \<in> set (map ?upd albums)" by (intro imageI [of b "set albums" ?upd, folded set_map])
          moreover from b have "d' \<in> set (SourceDirs (?upd b))" by simp
          ultimately show ?thesis using True by auto
        next
          case False
          with b show ?thesis by auto
        qed
      qed
    qed
    have p1: "c' = None \<longleftrightarrow> c0 = None" using c1 i1 by simp
    have p2: "\<forall>d'. d' \<notin> insert d ds \<longrightarrow> cache_row c' d' = cache_row c0 d'"
      using c2 i2 by simp
    show ?thesis
      unfolding acc r organize_dirs_inv_def prod.case
      using p1 p2 p3 p4 p5 by blast
  qed
qed

lemma organize_dirs_inv_init: "organize_dirs_inv env config files c0 {} ([], c0)"
  by (simp add: organize_dirs_inv_def)

lemma organize_dirs_inv_fold:
  assumes "distinct dirs" and "set dirs \<inter> ds = {}"
    and "organize_dirs_inv env config files c0 ds acc"
  shows "organize_dirs_inv env config files c0 (ds \<union> set dirs)
           (organize_dirs env config files dirs acc)"
  using assms
proof (induction dirs arbitrary: ds acc)
  case Nil
  then show ?case by (simp add: organize_dirs_def)
next
  case (Cons d dirs)
  from Cons.prems have new: "d \<notin> ds" by auto
  from organize_dir_inv [OF Cons.prems(3) new]
  have step: "organize_dirs_inv env config files c0 (insert d ds) (organize_dir env config files d acc)" .
  from Cons.prems have "distinct dirs" "set dirs \<inter> insert d ds = {}" by auto
  from Cons.IH [OF this step]
  show ?case by (simp add: organize_dirs_def)
qed

lemma organize_dirs_result:
  assumes "distinct dirs"
  shows "organize_dirs_inv env config files c0 (set dirs)
           (organize_dirs env config files dirs ([], c0))"
  using organize_dirs_inv_fold [OF assms, of "{}" env config files c0 "([], c0)"]
    organize_dirs_inv_init [of env config files c0]
  by simp

lemma filterAlbumsWithNewFiles_set:
  "set (filterAlbumsWithNewFiles albums) =
     (\<lambda>a. a\<lparr>Files := filter (needs_move a) (Files a)\<rparr>)
       ` {a \<in> set albums. \<exists>f\<in>set (Files a). needs_move a f}"
proof (induction albums)
  case Nil
  then show ?case by simp
next
  case (Cons a albums)
  have e: "\<lparr>Name = Name a, Destination = Destination a, Files = filter (needs_move a) (Files a),
           SourceDirs = SourceDirs a, Date = Date a, Album_Type = Album_Type a\<rparr>
         = a\<lparr>Files := filter (needs_move a) (Files a)\<rparr>"
    by simp
  have f: "filter (needs_move a) (Files a) \<noteq> [] \<longleftrightarrow> (\<exists>f\<in>set (Files a). needs_move a f)"
    by (simp add: filter_empty_conv)
  show ?case
  proof (cases "\<exists>f\<in>set (Files a). needs_move a f")
    case True
    with f have "filterAlbumsWithNewFiles (a # albums)
      = a\<lparr>Files := filter (needs_move a) (Files a)\<rparr> # filterAlbumsWithNewFiles albums"
      by (simp add: Let_def)
    with Cons True show ?thesis by auto
  next
    case False
    with f have "filterAlbumsWithNewFiles (a # albums) = filterAlbumsWithNewFiles albums"
      by (simp add: Let_def)
    with Cons False show ?thesis by auto
  qed
qed

lemma music_plan_type: "Album_Type (music_plan config files name) = TypeMusic"
  by (simp add: music_plan_def)

text \<open>The albums before the filter: those of the directories, then the music albums.\<close>

lemma albums_before_filter_result:
  assumes "range_order (byAlbum_keys files) names"
  shows "albums_before_filter env config dirs names files c0 =
           Inr (fst (organize_dirs env config files dirs ([], c0))
                @ map (music_plan config files) names)"
  using organizeMusicFiles_result [OF assms]
  by (simp add: albums_before_filter_def)

lemma byDirectory_key:
  assumes "byDirectory files d \<noteq> []"
  shows "d \<in> set (byDirectory_keys files)"
proof -
  from assms obtain f where "f \<in> set (byDirectory files d)" by (cases "byDirectory files d") auto
  then have "f \<in> set files" "Type f \<noteq> TypeMusic" "filepath_Dir (Path f) = d"
    by (auto simp: byDirectory_def)
  then show ?thesis by (force simp: byDirectory_keys_def)
qed

lemma dir_albums_props:
  fixes env :: go_env and config :: Config and c0 :: "suggestion_table option"
  assumes ro: "range_order (byDirectory_keys files) dirs"
  defines "A \<equiv> fst (organize_dirs env config files dirs ([], c0))"
  shows "distinct (map Name A)"
    and "\<And>a. a \<in> set A \<Longrightarrow> Album_Type a \<noteq> TypeMusic"
    and "\<And>a d. a \<in> set A \<Longrightarrow> d \<in> set (SourceDirs a) \<Longrightarrow>
           3 \<le> length (byDirectory files d) \<and> computed_name env config c0 files d = Name a"
    and "\<And>a. a \<in> set A \<Longrightarrow> Files a = concat (map (byDirectory files) (SourceDirs a))"
    and "\<And>d. 3 \<le> length (byDirectory files d) \<Longrightarrow> \<exists>a\<in>set A. d \<in> set (SourceDirs a)"
proof -
  from ro have dd: "distinct dirs" and sd: "set dirs = set (byDirectory_keys files)"
    by (simp_all add: range_order_def)
  obtain c where r: "organize_dirs env config files dirs ([], c0) = (A, c)"
    unfolding A_def by (cases "organize_dirs env config files dirs ([], c0)") simp
  from organize_dirs_result [OF dd, of env config files c0] r
  have inv: "organize_dirs_inv env config files c0 (set dirs) (A, c)" by simp
  from inv show "distinct (map Name A)" by (simp add: organize_dirs_inv_def)
  from inv have i4: "\<forall>a\<in>set A.
             Album_Type a \<noteq> TypeMusic
             \<and> set (SourceDirs a) \<subseteq> {d \<in> set dirs. 3 \<le> length (byDirectory files d)}
             \<and> (\<forall>d\<in>set (SourceDirs a). computed_name env config c0 files d = Name a)
             \<and> Files a = concat (map (byDirectory files) (SourceDirs a))"
    by (simp add: organize_dirs_inv_def)
  from i4 show "\<And>a. a \<in> set A \<Longrightarrow> Album_Type a \<noteq> TypeMusic" by blast
  from i4 show "\<And>a d. a \<in> set A \<Longrightarrow> d \<in> set (SourceDirs a) \<Longrightarrow>
           3 \<le> length (byDirectory files d) \<and> computed_name env config c0 files d = Name a"
    by blast
  from i4 show "\<And>a. a \<in> set A \<Longrightarrow> Files a = concat (map (byDirectory files) (SourceDirs a))"
    by blast
  from inv have i5: "\<forall>d\<in>set dirs. 3 \<le> length (byDirectory files d)
             \<longrightarrow> (\<exists>a\<in>set A. d \<in> set (SourceDirs a))"
    by (simp add: organize_dirs_inv_def)
  show "\<exists>a\<in>set A. d \<in> set (SourceDirs a)" if "3 \<le> length (byDirectory files d)" for d
  proof -
    from that have "byDirectory files d \<noteq> []" by auto
    then have "d \<in> set dirs" using byDirectory_key sd by blast
    with i5 that show ?thesis by blast
  qed
qed

lemma distinct_map_eq:
  "distinct (map f xs) \<Longrightarrow> x \<in> set xs \<Longrightarrow> y \<in> set xs \<Longrightarrow> f x = f y \<Longrightarrow> x = y"
  by (auto simp: distinct_map dest: inj_onD)

lemma filtered_album:
  "b \<in> set (filterAlbumsWithNewFiles albums) \<longleftrightarrow>
     (\<exists>a\<in>set albums. (\<exists>f\<in>set (Files a). needs_move a f)
         \<and> b = a\<lparr>Files := filter (needs_move a) (Files a)\<rparr>)"
  by (auto simp: filterAlbumsWithNewFiles_set)

lemma byDirectory_keys_order: "range_order (byDirectory_keys files) (byDirectory_keys files)"
  by (simp add: range_order_def byDirectory_keys_def)

lemma byAlbum_keys_order: "range_order (byAlbum_keys files) (byAlbum_keys files)"
  by (simp add: range_order_def byAlbum_keys_def)

text \<open>
  A directory with exactly three photos that yields no album: the library folder
  \<open>/src/MediaLibrary/Photos/2020/Trip\<close> on a later run. The naming service answers
  \<open>Trip\<close>, so the destination is the folder itself; no file is new or elsewhere, and the
  filter drops the album.
\<close>

theorem album_threshold_counterexample:
  "length (byDirectory settled_files ''/src/MediaLibrary/Photos/2020/Trip'') = 3
   \<and> OrganizeIntoAlbums env_trip config_default (byDirectory_keys settled_files)
        (byAlbum_keys settled_files) settled_files (Some []) = Inr []"
  by code_simp

text \<open>
  Claim C8, as amended. For every input of \<open>OrganizeIntoAlbums\<close>, no photo or video
  album, before or after the filter, lists a source directory that contributes exactly
  two non-audio records; a source directory that contributes exactly three is listed by
  a photo or video album before the filter, which holds its records, and the result
  lists it exactly if some file of that album is new or not at its destination path.
\<close>

theorem album_threshold:
  assumes "range_order (byDirectory_keys files) dirs"
    and "range_order (byAlbum_keys files) names"
  shows "\<exists>albums.
      albums_before_filter env config dirs names files c0 = Inr albums
    \<and> OrganizeIntoAlbums env config dirs names files c0 = Inr (filterAlbumsWithNewFiles albums)
    \<and> (length (byDirectory files d2) = 2 \<longrightarrow>
          (\<forall>a\<in>set albums. Album_Type a \<noteq> TypeMusic \<longrightarrow> d2 \<notin> set (SourceDirs a))
        \<and> (\<forall>a\<in>set (filterAlbumsWithNewFiles albums).
              Album_Type a \<noteq> TypeMusic \<longrightarrow> d2 \<notin> set (SourceDirs a)))
    \<and> (length (byDirectory files d3) = 3 \<longrightarrow>
          (\<exists>a\<in>set albums.
              Album_Type a \<noteq> TypeMusic \<and> d3 \<in> set (SourceDirs a)
            \<and> set (byDirectory files d3) \<subseteq> set (Files a)
            \<and> ((\<exists>b\<in>set (filterAlbumsWithNewFiles albums).
                    Album_Type b \<noteq> TypeMusic \<and> d3 \<in> set (SourceDirs b))
                 \<longleftrightarrow> (\<exists>f\<in>set (Files a). needs_move a f))))"
proof -
  define A where "A = fst (organize_dirs env config files dirs ([], c0))"
  define M where "M = map (music_plan config files) names"
  note P = dir_albums_props [OF assms(1), where env = env and config = config and ?c0.0 = c0,
      folded A_def]
  have before: "albums_before_filter env config dirs names files c0 = Inr (A @ M)"
    unfolding A_def M_def using assms(2) by (rule albums_before_filter_result)
  then have res: "OrganizeIntoAlbums env config dirs names files c0
                  = Inr (filterAlbumsWithNewFiles (A @ M))"
    by (simp add: OrganizeIntoAlbums_def)
  have music: "\<And>a. a \<in> set M \<Longrightarrow> Album_Type a = TypeMusic"
    by (auto simp: M_def music_plan_type)
  have nonmusic: "a \<in> set A" if "a \<in> set (A @ M)" "Album_Type a \<noteq> TypeMusic" for a
    using that music by auto
  have two: "(\<forall>a\<in>set (A @ M). Album_Type a \<noteq> TypeMusic \<longrightarrow> d2 \<notin> set (SourceDirs a))
        \<and> (\<forall>a\<in>set (filterAlbumsWithNewFiles (A @ M)).
              Album_Type a \<noteq> TypeMusic \<longrightarrow> d2 \<notin> set (SourceDirs a))"
    if l: "length (byDirectory files d2) = 2"
  proof -
    have x: "d2 \<notin> set (SourceDirs a)" if "a \<in> set (A @ M)" "Album_Type a \<noteq> TypeMusic" for a
    proof
      assume "d2 \<in> set (SourceDirs a)"
      with P(3) [OF nonmusic [OF that]] have "3 \<le> length (byDirectory files d2)" by blast
      with l show False by simp
    qed
    have y: "d2 \<notin> set (SourceDirs b)"
      if "b \<in> set (filterAlbumsWithNewFiles (A @ M))" "Album_Type b \<noteq> TypeMusic" for b
    proof -
      from that(1) obtain a where a: "a \<in> set (A @ M)"
        "b = a\<lparr>Files := filter (needs_move a) (Files a)\<rparr>"
        unfolding filtered_album by blast
      with that(2) have "Album_Type a \<noteq> TypeMusic" by simp
      from x [OF a(1) this] a(2) show ?thesis by simp
    qed
    from x y show ?thesis by blast
  qed
  have three: "\<exists>a\<in>set (A @ M).
              Album_Type a \<noteq> TypeMusic \<and> d3 \<in> set (SourceDirs a)
            \<and> set (byDirectory files d3) \<subseteq> set (Files a)
            \<and> ((\<exists>b\<in>set (filterAlbumsWithNewFiles (A @ M)).
                    Album_Type b \<noteq> TypeMusic \<and> d3 \<in> set (SourceDirs b))
                 \<longleftrightarrow> (\<exists>f\<in>set (Files a). needs_move a f))"
    if l: "length (byDirectory files d3) = 3"
  proof -
    from l have "3 \<le> length (byDirectory files d3)" by simp
    from P(5) [OF this] obtain a where a: "a \<in> set A" "d3 \<in> set (SourceDirs a)" by blast
    have t: "Album_Type a \<noteq> TypeMusic" using P(2) [OF a(1)] .
    have fs: "set (byDirectory files d3) \<subseteq> set (Files a)"
      using P(4) [OF a(1)] a(2) by auto
    have iff: "(\<exists>b\<in>set (filterAlbumsWithNewFiles (A @ M)).
                    Album_Type b \<noteq> TypeMusic \<and> d3 \<in> set (SourceDirs b))
                 \<longleftrightarrow> (\<exists>f\<in>set (Files a). needs_move a f)"
    proof
      assume "\<exists>b\<in>set (filterAlbumsWithNewFiles (A @ M)).
                    Album_Type b \<noteq> TypeMusic \<and> d3 \<in> set (SourceDirs b)"
      then obtain b where b: "b \<in> set (filterAlbumsWithNewFiles (A @ M))"
        "Album_Type b \<noteq> TypeMusic" "d3 \<in> set (SourceDirs b)" by blast
      from b(1) obtain a' where a': "a' \<in> set (A @ M)" "\<exists>f\<in>set (Files a'). needs_move a' f"
        "b = a'\<lparr>Files := filter (needs_move a') (Files a')\<rparr>"
        unfolding filtered_album by blast
      from a'(3) b(2,3) have "Album_Type a' \<noteq> TypeMusic" "d3 \<in> set (SourceDirs a')" by simp_all
      with a'(1) have "a' \<in> set A" using nonmusic by blast
      from P(3) [OF this \<open>d3 \<in> set (SourceDirs a')\<close>] P(3) [OF a]
      have "Name a' = Name a" by simp
      from distinct_map_eq [OF P(1) \<open>a' \<in> set A\<close> a(1) this] a'(2)
      show "\<exists>f\<in>set (Files a). needs_move a f" by simp
    next
      assume nm: "\<exists>f\<in>set (Files a). needs_move a f"
      let ?b = "a\<lparr>Files := filter (needs_move a) (Files a)\<rparr>"
      from a(1) nm have "?b \<in> set (filterAlbumsWithNewFiles (A @ M))"
        unfolding filtered_album by auto
      moreover have "Album_Type ?b \<noteq> TypeMusic" "d3 \<in> set (SourceDirs ?b)"
        using t a(2) by simp_all
      ultimately show "\<exists>b\<in>set (filterAlbumsWithNewFiles (A @ M)).
                    Album_Type b \<noteq> TypeMusic \<and> d3 \<in> set (SourceDirs b)" by blast
    qed
    from a(1) t a(2) fs iff show ?thesis by auto
  qed
  from before res two three show ?thesis by blast
qed

lemma pair_trip_lengths:
  "length (byDirectory (pair_files @ new_files) ''/src/Pair'') = 2"
  "length (byDirectory (pair_files @ new_files) ''/src/Trip'') = 3"
  by code_simp+

theorem album_threshold_witness:
  "range_order (byDirectory_keys (pair_files @ new_files)) (byDirectory_keys (pair_files @ new_files))
   \<and> range_order (byAlbum_keys (pair_files @ new_files)) (byAlbum_keys (pair_files @ new_files))
   \<and> length (byDirectory (pair_files @ new_files) ''/src/Pair'') = 2
   \<and> length (byDirectory (pair_files @ new_files) ''/src/Trip'') = 3
   \<and> (\<exists>albums.
         OrganizeIntoAlbums env_trip config_default (byDirectory_keys (pair_files @ new_files))
           (byAlbum_keys (pair_files @ new_files)) (pair_files @ new_files) (Some [])
           = Inr (filterAlbumsWithNewFiles albums)
       \<and> (\<forall>a\<in>set (filterAlbumsWithNewFiles albums).
             Album_Type a \<noteq> TypeMusic \<longrightarrow> ''/src/Pair'' \<notin> set (SourceDirs a))
       \<and> (\<exists>a\<in>set albums. Album_Type a \<noteq> TypeMusic \<and> ''/src/Trip'' \<in> set (SourceDirs a)))"
proof -
  note T = album_threshold [OF byDirectory_keys_order byAlbum_keys_order,
      where files = "pair_files @ new_files" and env = env_trip and config = config_default
        and ?c0.0 = "Some []" and ?d2.0 = "''/src/Pair''" and ?d3.0 = "''/src/Trip''"]
  from T pair_trip_lengths byDirectory_keys_order byAlbum_keys_order
  show ?thesis by blast
qed

text \<open>
  Two directories with the same computed name whose returned album does not hold the
  union of their files: the settled library folder and \<open>/src/Trip\<close>. The album lists
  both directories, but the filter keeps only the three new files.
\<close>

theorem album_merge_counterexample:
  "byDirectory (settled_files @ new_files) ''/src/MediaLibrary/Photos/2020/Trip'' = settled_files
   \<and> byDirectory (settled_files @ new_files) ''/src/Trip'' = new_files
   \<and> computed_name env_trip config_default (Some []) (settled_files @ new_files)
        ''/src/MediaLibrary/Photos/2020/Trip'' = ''Trip''
   \<and> computed_name env_trip config_default (Some []) (settled_files @ new_files)
        ''/src/Trip'' = ''Trip''
   \<and> OrganizeIntoAlbums env_trip config_default
        (byDirectory_keys (settled_files @ new_files)) (byAlbum_keys (settled_files @ new_files))
        (settled_files @ new_files) (Some [])
       = Inr [\<lparr>Name = ''Trip'', Destination = ''/src/MediaLibrary/Photos/2020/Trip'',
                Files = new_files,
                SourceDirs = [''/src/MediaLibrary/Photos/2020/Trip'', ''/src/Trip''],
                Date = Some (Time 1593604800 0), Album_Type = TypePhoto\<rparr>]"
  by code_simp

text \<open>
  Claim C9, as amended. Whenever two different source directories, each with at least
  three non-audio records, have the same computed album name, the albums before the
  filter hold exactly one photo or video album of that name; its source directories are
  the directories with that computed name, so both, and its files are the union of
  their groups. \<open>OrganizeIntoAlbums\<close> returns that album exactly if one of its files is
  new or not at its destination path, with the same source directories and with only
  those files.
\<close>

theorem album_merge:
  assumes "range_order (byDirectory_keys files) dirs"
    and "range_order (byAlbum_keys files) names"
    and "d1 \<noteq> d2"
    and "3 \<le> length (byDirectory files d1)" and "3 \<le> length (byDirectory files d2)"
    and "computed_name env config c0 files d1 = computed_name env config c0 files d2"
  shows "\<exists>albums a.
      albums_before_filter env config dirs names files c0 = Inr albums
    \<and> OrganizeIntoAlbums env config dirs names files c0 = Inr (filterAlbumsWithNewFiles albums)
    \<and> a \<in> set albums \<and> Album_Type a \<noteq> TypeMusic
    \<and> Name a = computed_name env config c0 files d1
    \<and> (\<forall>b\<in>set albums. Album_Type b \<noteq> TypeMusic \<and> Name b = Name a \<longrightarrow> b = a)
    \<and> d1 \<in> set (SourceDirs a) \<and> d2 \<in> set (SourceDirs a)
    \<and> set (SourceDirs a)
        = {d. 3 \<le> length (byDirectory files d) \<and> computed_name env config c0 files d = Name a}
    \<and> set (Files a) = (\<Union>d\<in>set (SourceDirs a). set (byDirectory files d))
    \<and> (\<forall>b\<in>set (filterAlbumsWithNewFiles albums).
          Album_Type b \<noteq> TypeMusic \<and> Name b = Name a \<longrightarrow>
            SourceDirs b = SourceDirs a \<and> Files b = filter (needs_move a) (Files a))
    \<and> ((\<exists>b\<in>set (filterAlbumsWithNewFiles albums). Album_Type b \<noteq> TypeMusic \<and> Name b = Name a)
         \<longleftrightarrow> (\<exists>f\<in>set (Files a). needs_move a f))"
proof -
  define A where "A = fst (organize_dirs env config files dirs ([], c0))"
  define M where "M = map (music_plan config files) names"
  note P = dir_albums_props [OF assms(1), where env = env and config = config and ?c0.0 = c0,
      folded A_def]
  have before: "albums_before_filter env config dirs names files c0 = Inr (A @ M)"
    unfolding A_def M_def using assms(2) by (rule albums_before_filter_result)
  then have res: "OrganizeIntoAlbums env config dirs names files c0
                  = Inr (filterAlbumsWithNewFiles (A @ M))"
    by (simp add: OrganizeIntoAlbums_def)
  have music: "\<And>a. a \<in> set M \<Longrightarrow> Album_Type a = TypeMusic"
    by (auto simp: M_def music_plan_type)
  have nonmusic: "a \<in> set A" if "a \<in> set (A @ M)" "Album_Type a \<noteq> TypeMusic" for a
    using that music by auto
  from P(5) [OF assms(4)] obtain a where a: "a \<in> set A" "d1 \<in> set (SourceDirs a)" by blast
  from P(5) [OF assms(5)] obtain a2 where a2: "a2 \<in> set A" "d2 \<in> set (SourceDirs a2)" by blast
  have na: "Name a = computed_name env config c0 files d1" using P(3) [OF a] by simp
  have "Name a2 = computed_name env config c0 files d2" using P(3) [OF a2] by simp
  with na assms(6) have "Name a2 = Name a" by simp
  from distinct_map_eq [OF P(1) a2(1) a(1) this] a2(2) have d2: "d2 \<in> set (SourceDirs a)" by simp
  have t: "Album_Type a \<noteq> TypeMusic" using P(2) [OF a(1)] .
  have uniq: "\<forall>b\<in>set (A @ M). Album_Type b \<noteq> TypeMusic \<and> Name b = Name a \<longrightarrow> b = a"
  proof (intro ballI impI)
    fix b assume "b \<in> set (A @ M)" and "Album_Type b \<noteq> TypeMusic \<and> Name b = Name a"
    then have "b \<in> set A" "Name b = Name a" using nonmusic by blast+
    from distinct_map_eq [OF P(1) this(1) a(1) this(2)] show "b = a" .
  qed
  have sd: "set (SourceDirs a)
        = {d. 3 \<le> length (byDirectory files d) \<and> computed_name env config c0 files d = Name a}"
  proof (intro set_eqI iffI)
    fix d assume "d \<in> set (SourceDirs a)"
    from P(3) [OF a(1) this]
    show "d \<in> {d. 3 \<le> length (byDirectory files d) \<and> computed_name env config c0 files d = Name a}"
      by simp
  next
    fix d assume "d \<in> {d. 3 \<le> length (byDirectory files d) \<and> computed_name env config c0 files d = Name a}"
    then have b3: "3 \<le> length (byDirectory files d)"
      and cn: "computed_name env config c0 files d = Name a" by simp_all
    from P(5) [OF b3] obtain a' where a': "a' \<in> set A" "d \<in> set (SourceDirs a')" by blast
    from P(3) [OF a'] cn have "Name a' = Name a" by simp
    from distinct_map_eq [OF P(1) a'(1) a(1) this] a'(2) show "d \<in> set (SourceDirs a)" by simp
  qed
  have fs: "set (Files a) = (\<Union>d\<in>set (SourceDirs a). set (byDirectory files d))"
    using P(4) [OF a(1)] by simp
  have kept: "\<forall>b\<in>set (filterAlbumsWithNewFiles (A @ M)).
          Album_Type b \<noteq> TypeMusic \<and> Name b = Name a \<longrightarrow>
            SourceDirs b = SourceDirs a \<and> Files b = filter (needs_move a) (Files a)"
  proof (intro ballI impI)
    fix b assume b: "b \<in> set (filterAlbumsWithNewFiles (A @ M))"
      and tn: "Album_Type b \<noteq> TypeMusic \<and> Name b = Name a"
    from b obtain a' where a': "a' \<in> set (A @ M)"
      "b = a'\<lparr>Files := filter (needs_move a') (Files a')\<rparr>"
      unfolding filtered_album by blast
    with tn have "Album_Type a' \<noteq> TypeMusic \<and> Name a' = Name a" by simp
    with uniq a'(1) have "a' = a" by blast
    with a'(2) show "SourceDirs b = SourceDirs a \<and> Files b = filter (needs_move a) (Files a)"
      by simp
  qed
  have iff: "(\<exists>b\<in>set (filterAlbumsWithNewFiles (A @ M)). Album_Type b \<noteq> TypeMusic \<and> Name b = Name a)
         \<longleftrightarrow> (\<exists>f\<in>set (Files a). needs_move a f)"
  proof
    assume "\<exists>b\<in>set (filterAlbumsWithNewFiles (A @ M)). Album_Type b \<noteq> TypeMusic \<and> Name b = Name a"
    then obtain b where b: "b \<in> set (filterAlbumsWithNewFiles (A @ M))"
      and tn: "Album_Type b \<noteq> TypeMusic \<and> Name b = Name a" by blast
    from b obtain a' where a': "a' \<in> set (A @ M)" "\<exists>f\<in>set (Files a'). needs_move a' f"
      "b = a'\<lparr>Files := filter (needs_move a') (Files a')\<rparr>"
      unfolding filtered_album by blast
    with tn have "Album_Type a' \<noteq> TypeMusic \<and> Name a' = Name a" by simp
    with uniq a'(1) have "a' = a" by blast
    with a'(2) show "\<exists>f\<in>set (Files a). needs_move a f" by simp
  next
    assume nm: "\<exists>f\<in>set (Files a). needs_move a f"
    let ?b = "a\<lparr>Files := filter (needs_move a) (Files a)\<rparr>"
    from a(1) nm have "?b \<in> set (filterAlbumsWithNewFiles (A @ M))"
      unfolding filtered_album by auto
    moreover have "Album_Type ?b \<noteq> TypeMusic \<and> Name ?b = Name a" using t by simp
    ultimately show "\<exists>b\<in>set (filterAlbumsWithNewFiles (A @ M)).
        Album_Type b \<noteq> TypeMusic \<and> Name b = Name a" by blast
  qed
  have ain: "a \<in> set (A @ M)" using a(1) by simp
  from before res ain t na uniq a(2) d2 sd fs kept iff show ?thesis by blast
qed

lemma trip_dirs:
  "''/src/MediaLibrary/Photos/2020/Trip'' \<noteq> ''/src/Trip''"
  "3 \<le> length (byDirectory (settled_files @ new_files) ''/src/MediaLibrary/Photos/2020/Trip'')"
  "3 \<le> length (byDirectory (settled_files @ new_files) ''/src/Trip'')"
  "computed_name env_trip config_default (Some []) (settled_files @ new_files)
        ''/src/MediaLibrary/Photos/2020/Trip''
   = computed_name env_trip config_default (Some []) (settled_files @ new_files) ''/src/Trip''"
  by code_simp+

theorem album_merge_witness:
  "range_order (byDirectory_keys (settled_files @ new_files))
     (byDirectory_keys (settled_files @ new_files))
   \<and> range_order (byAlbum_keys (settled_files @ new_files)) (byAlbum_keys (settled_files @ new_files))
   \<and> ''/src/MediaLibrary/Photos/2020/Trip'' \<noteq> ''/src/Trip''
   \<and> 3 \<le> length (byDirectory (settled_files @ new_files) ''/src/MediaLibrary/Photos/2020/Trip'')
   \<and> 3 \<le> length (byDirectory (settled_files @ new_files) ''/src/Trip'')
   \<and> computed_name env_trip config_default (Some []) (settled_files @ new_files)
        ''/src/MediaLibrary/Photos/2020/Trip''
      = computed_name env_trip config_default (Some []) (settled_files @ new_files) ''/src/Trip''
   \<and> (\<exists>albums a.
         albums_before_filter env_trip config_default (byDirectory_keys (settled_files @ new_files))
           (byAlbum_keys (settled_files @ new_files)) (settled_files @ new_files) (Some [])
           = Inr albums
       \<and> a \<in> set albums
       \<and> ''/src/MediaLibrary/Photos/2020/Trip'' \<in> set (SourceDirs a)
       \<and> ''/src/Trip'' \<in> set (SourceDirs a)
       \<and> set (Files a)
           = (\<Union>d\<in>set (SourceDirs a). set (byDirectory (settled_files @ new_files) d)))"
proof -
  note T = album_merge [OF byDirectory_keys_order byAlbum_keys_order trip_dirs]
  from T trip_dirs byDirectory_keys_order byAlbum_keys_order
  show ?thesis by blast
qed

end
